theory Spec2Isabelle
  imports Complex_Main "HOL-Library.Multiset" "HOL-Library.Sublist"
begin


section \<open>The threading demonstration script \<^verbatim>\<open>ss.py\<close>\<close>

text \<open>
  The script has four parts: a CPU-bound function timed twice (called in sequence, then
  through a thread pool), an I/O-bound function timed the same way, three worker threads
  that append to one list under a lock, and a second CPU-bound function meant for
  processes. Pure functions are HOL functions. The two threaded parts are transition
  systems: a state record, one atomic step per thread, and executions as lists of the
  threads that move (schedules), so that every interleaving is an execution.
\<close>


section \<open>Definitions\<close>

subsection \<open>The CPU-bound functions, the ratio and the I/O-bound function\<close>

text \<open>
  Python's \<^verbatim>\<open>range(n)\<close> for an integer \<open>n\<close>: the integers \<open>0, ..., n - 1\<close> in order, and
  nothing when \<open>n \<le> 0\<close>.
\<close>

definition py_range :: "int \<Rightarrow> int list" where
  "py_range n = [0..n - 1]"

text \<open>
  \<^verbatim>\<open>cpu_intensive_task\<close> (lines 11-16): \<^verbatim>\<open>result = 0\<close>, then \<^verbatim>\<open>result += i * i\<close> for every
  \<open>i\<close> of \<^verbatim>\<open>range(n)\<close>. Python integers are unbounded, so the type is \<open>int\<close>.
\<close>

definition cpu_intensive_task :: "int \<Rightarrow> int" where
  "cpu_intensive_task n = foldl (\<lambda>result i. result + i * i) 0 (py_range n)"

text \<open>
  \<^verbatim>\<open>cpu_task_for_process\<close> (lines 110-115), written out again in the source with the same
  body.
\<close>

definition cpu_task_for_process :: "int \<Rightarrow> int" where
  "cpu_task_for_process n = foldl (\<lambda>result i. result + i * i) 0 (py_range n)"

text \<open>
  The exceptions that the modelled statements can raise.
\<close>

datatype py_error = ZeroDivisionError | ValueError

text \<open>
  Python's \<^verbatim>\<open>/\<close> on two floats raises \<^verbatim>\<open>ZeroDivisionError\<close> when the divisor is zero and
  returns the quotient otherwise. Elapsed times are real numbers here: the test for zero
  is exact, the rounding of the quotient is left out.
\<close>

definition truediv :: "real \<Rightarrow> real \<Rightarrow> py_error + real" where
  "truediv a b = (if b = 0 then Inl ZeroDivisionError else Inr (a / b))"

text \<open>
  The ratio printed at lines 37 and 70, \<^verbatim>\<open>single_thread_time/multi_thread_time\<close> and
  \<^verbatim>\<open>single_thread_io_time/multi_thread_io_time\<close>: a plain division of the two measured
  times, with nothing around it.
\<close>

definition speedup :: "real \<Rightarrow> real \<Rightarrow> py_error + real" where
  "speedup single_thread_time multi_thread_time = truediv single_thread_time multi_thread_time"

text \<open>
  What \<^verbatim>\<open>requests.get('https://httpbin.org/delay/1', timeout=3)\<close> can do at line 45: return
  a response, of which the function reads \<^verbatim>\<open>status_code\<close>, or raise an exception (no
  network, a timeout, anything else).
\<close>

datatype 'e http_result = Response int | Raised 'e

text \<open>
  What the fallback \<^verbatim>\<open>time.sleep(1)\<close> of line 49 can do: run to its end, or raise (an
  interrupt delivered to the main thread while it sleeps, or an exception from a signal
  handler). It stands inside the \<^verbatim>\<open>except\<close> suite, where nothing catches what it raises.
\<close>

datatype 'e sleep_result = Slept | Interrupted 'e

text \<open>
  The blocking operations \<^verbatim>\<open>io_intensive_task\<close> performs, in order: the request and
  \<^verbatim>\<open>time.sleep\<close> with its number of seconds.
\<close>

datatype io_effect = Http_get | Sleep nat

text \<open>
  Some exceptions, for examples.
\<close>

datatype py_exception = ConnectionError | ReadTimeout | KeyboardInterrupt

text \<open>
  \<^verbatim>\<open>io_intensive_task\<close> (lines 41-50), given what the request and the fallback sleep do.
  The \<^verbatim>\<open>try\<close> block returns the status code of the response. The bare \<^verbatim>\<open>except:\<close> catches
  every exception of the request and sleeps one second; when the sleep runs to its end
  the function returns 200, and when the sleep raises, that exception leaves the
  function (\<open>Inl\<close>). The sleep is consulted in the \<^verbatim>\<open>except\<close> suite only.
\<close>

definition io_intensive_task ::
  "'e http_result \<Rightarrow> 'e sleep_result \<Rightarrow> ('e + int) \<times> io_effect list" where
  "io_intensive_task network nap =
     (case network of
        Response status_code \<Rightarrow> (Inr status_code, [Http_get])
      | Raised e \<Rightarrow>
          (case nap of
             Slept \<Rightarrow> (Inr 200, [Http_get, Sleep 1])
           | Interrupted e' \<Rightarrow> (Inl e', [Http_get, Sleep 1])))"


subsection \<open>Three workers appending to a shared list under a lock\<close>

text \<open>
  A Python \<^verbatim>\<open>str\<close> is a sequence of Unicode code points; a code point is a natural
  number here.
\<close>

type_synonym pystr = "nat list"

text \<open>
  The decimal digits of a natural number as code points (\<open>48\<close> is the character 0).
\<close>

fun digits :: "nat \<Rightarrow> pystr" where
  "digits n = (if n < 10 then [48 + n] else digits (n div 10) @ [48 + n mod 10])"

declare digits.simps [simp del]

text \<open>
  How an f-string renders an integer: \<^verbatim>\<open>str(n)\<close>, a minus sign (\<open>45\<close>) before the digits
  of a negative number.
\<close>

definition py_str :: "int \<Rightarrow> pystr" where
  "py_str n = (if n < 0 then 45 # digits (nat (- n)) else digits (nat n))"

text \<open>
  The f-string of line 81. Its literal parts are Chinese: the two characters U+7EBF U+7A0B
  (thread; code points 32447 and 31243), then \<^verbatim>\<open>thread_id\<close>, then a hyphen (45) and the two
  characters U+4EFB U+52A1 (task; 20219 and 21153), then \<^verbatim>\<open>i\<close>.
\<close>

definition entry :: "int \<Rightarrow> int \<Rightarrow> pystr" where
  "entry thread_id i = [32447, 31243] @ py_str thread_id @ [45, 20219, 21153] @ py_str i"

text \<open>
  Where a thread running \<^verbatim>\<open>worker\<close> (lines 77-82) stands, with the value of its loop
  variable \<open>i\<close>: at the head of the \<^verbatim>\<open>for\<close> loop, waiting to enter \<^verbatim>\<open>with lock\<close>, inside the
  block before the \<^verbatim>\<open>append\<close>, inside the block after it (about to release the lock), in
  \<^verbatim>\<open>time.sleep(0.1)\<close>, or returned.
\<close>

datatype worker_pc = At_for nat | At_with nat | At_append nat | At_release nat | At_sleep nat | Returned

text \<open>
  Where the main thread stands in lines 88-97: in the loop that creates and starts the
  threads (with the number started so far), in the loop that joins them (with the index
  of the thread it waits for), or past both.
\<close>

datatype main_pc = Spawning nat | Joining nat | Main_done

text \<open>
  The state of lines 84-97: the list \<^verbatim>\<open>shared_data\<close>, whether \<^verbatim>\<open>lock\<close> is held (a
  \<^verbatim>\<open>threading.Lock\<close> has no owner), and the list \<^verbatim>\<open>threads\<close>, each thread with the
  \<^verbatim>\<open>thread_id\<close> it was given and its control point.
\<close>

record demo_state =
  shared_data :: "pystr list"
  lock :: bool
  threads :: "(int \<times> worker_pc) list"
  main :: main_pc

text \<open>
  The threads of the program, and the replacement of one thread's control point.
\<close>

datatype actor = Main | Worker nat

definition set_pc :: "nat \<Rightarrow> worker_pc \<Rightarrow> demo_state \<Rightarrow> demo_state" where
  "set_pc t p s = s\<lparr>threads := (threads s)[t := (fst (threads s ! t), p)]\<rparr>"

text \<open>
  One atomic step of thread \<open>t\<close> in \<^verbatim>\<open>worker\<close>; \<open>steps\<close> stands for the literal 5 of
  \<^verbatim>\<open>range(5)\<close>. Entering \<^verbatim>\<open>with lock\<close> is possible only while the lock is free and takes
  it; a thread that cannot move (blocked on the lock, returned, or not started) gives
  \<open>None\<close>.
\<close>

definition worker :: "nat \<Rightarrow> nat \<Rightarrow> demo_state \<Rightarrow> demo_state option" where
  "worker steps t s =
     (if length (threads s) \<le> t then None
      else case snd (threads s ! t) of
        At_for i \<Rightarrow> Some (set_pc t (if i < steps then At_with i else Returned) s)
      | At_with i \<Rightarrow> if lock s then None else Some (set_pc t (At_append i) (s\<lparr>lock := True\<rparr>))
      | At_append i \<Rightarrow>
          Some (set_pc t (At_release i)
            (s\<lparr>shared_data := shared_data s @ [entry (fst (threads s ! t)) (int i)]\<rparr>))
      | At_release i \<Rightarrow> Some (set_pc t (At_sleep i) (s\<lparr>lock := False\<rparr>))
      | At_sleep i \<Rightarrow> Some (set_pc t (At_for (Suc i)) s)
      | Returned \<Rightarrow> None)"

text \<open>
  One atomic step of the main thread; \<open>n\<close> stands for the literal 3 of \<^verbatim>\<open>range(3)\<close>. Thread
  \<open>i\<close> is created with \<^verbatim>\<open>args=(i, shared_data, lock)\<close> and started; \<^verbatim>\<open>t.join()\<close> waits until
  the thread has returned.
\<close>

definition main_thread :: "nat \<Rightarrow> demo_state \<Rightarrow> demo_state option" where
  "main_thread n s =
     (case main s of
        Spawning i \<Rightarrow>
          Some (if i < n then s\<lparr>threads := threads s @ [(int i, At_for 0)], main := Spawning (Suc i)\<rparr>
                else s\<lparr>main := Joining 0\<rparr>)
      | Joining j \<Rightarrow>
          if j < length (threads s)
          then (if snd (threads s ! j) = Returned then Some (s\<lparr>main := Joining (Suc j)\<rparr>) else None)
          else Some (s\<lparr>main := Main_done\<rparr>)
      | Main_done \<Rightarrow> None)"

fun step :: "nat \<Rightarrow> nat \<Rightarrow> actor \<Rightarrow> demo_state \<Rightarrow> demo_state option" where
  "step n m Main s = main_thread n s"
| "step n m (Worker t) s = worker m t s"

text \<open>
  An execution is a schedule, the list of the threads that move one after the other. It
  yields \<open>None\<close> as soon as the scheduled thread cannot move.
\<close>

fun run :: "nat \<Rightarrow> nat \<Rightarrow> actor list \<Rightarrow> demo_state option \<Rightarrow> demo_state option" where
  "run n m [] r = r"
| "run n m (a # as) r = run n m as (Option.bind r (step n m a))"

text \<open>
  Lines 84-88: an empty list, a free lock, no threads.
\<close>

definition init :: demo_state where
  "init = \<lparr>shared_data = [], lock = False, threads = [], main = Spawning 0\<rparr>"

text \<open>
  The states that some execution reaches from the initial one.
\<close>

inductive reachable :: "nat \<Rightarrow> nat \<Rightarrow> demo_state \<Rightarrow> bool" for n m where
  reach_init: "reachable n m init"
| reach_step: "reachable n m s \<Longrightarrow> step n m a s = Some s' \<Longrightarrow> reachable n m s'"

text \<open>
  The literals of the script: \<^verbatim>\<open>range(3)\<close> at line 90 and \<^verbatim>\<open>range(5)\<close> at line 79.
\<close>

definition thread_count :: nat where
  "thread_count = 3"

definition tasks_per_thread :: nat where
  "tasks_per_thread = 5"

text \<open>
  The number of entries a thread at a given control point has appended so far.
\<close>

fun appended :: "nat \<Rightarrow> worker_pc \<Rightarrow> nat" where
  "appended m (At_for i) = i"
| "appended m (At_with i) = i"
| "appended m (At_append i) = i"
| "appended m (At_release i) = Suc i"
| "appended m (At_sleep i) = Suc i"
| "appended m Returned = m"

text \<open>
  The control points inside the \<^verbatim>\<open>with lock\<close> block.
\<close>

fun in_cs :: "worker_pc \<Rightarrow> bool" where
  "in_cs (At_append i) = True"
| "in_cs (At_release i) = True"
| "in_cs _ = False"

fun pc_ok :: "nat \<Rightarrow> worker_pc \<Rightarrow> bool" where
  "pc_ok m (At_for i) = (i \<le> m)"
| "pc_ok m (At_with i) = (i < m)"
| "pc_ok m (At_append i) = (i < m)"
| "pc_ok m (At_release i) = (i < m)"
| "pc_ok m (At_sleep i) = (i < m)"
| "pc_ok m Returned = True"

definition entries_of :: "nat \<Rightarrow> int \<times> worker_pc \<Rightarrow> pystr list" where
  "entries_of m th = map (\<lambda>i. entry (fst th) (int i)) [0..<appended m (snd th)]"

text \<open>
  An entry belongs to a thread when it starts with the thread's prefix, up to and
  including the hyphen.
\<close>

definition tag :: "int \<Rightarrow> pystr" where
  "tag thread_id = [32447, 31243] @ py_str thread_id @ [45]"

definition own :: "int \<Rightarrow> pystr \<Rightarrow> bool" where
  "own thread_id e = prefix (tag thread_id) e"

definition cs_count :: "demo_state \<Rightarrow> nat" where
  "cs_count s = length (filter (\<lambda>th. in_cs (snd th)) (threads s))"

text \<open>
  Invariants of the shared-list program: every thread holds its own index as
  \<^verbatim>\<open>thread_id\<close> and its loop variable is in range; the main thread's progress matches the
  list of threads.
\<close>

definition threads_ok :: "nat \<Rightarrow> demo_state \<Rightarrow> bool" where
  "threads_ok m s = (\<forall>t < length (threads s). fst (threads s ! t) = int t \<and> pc_ok m (snd (threads s ! t)))"

definition main_ok :: "nat \<Rightarrow> demo_state \<Rightarrow> bool" where
  "main_ok n s =
     (case main s of
        Spawning i \<Rightarrow> i \<le> n \<and> length (threads s) = i
      | Joining j \<Rightarrow> length (threads s) = n \<and> j \<le> n \<and> (\<forall>k < j. snd (threads s ! k) = Returned)
      | Main_done \<Rightarrow> length (threads s) = n \<and> (\<forall>k < n. snd (threads s ! k) = Returned))"

definition basic :: "nat \<Rightarrow> nat \<Rightarrow> demo_state \<Rightarrow> bool" where
  "basic n m s = (threads_ok m s \<and> main_ok n s)"

text \<open>
  The lock is held exactly when one thread is inside the \<^verbatim>\<open>with\<close> block.
\<close>

definition mutex :: "demo_state \<Rightarrow> bool" where
  "mutex s = (cs_count s = (if lock s then 1 else 0))"

text \<open>
  The number that a list of decimal digits denotes.
\<close>

definition digits_val :: "pystr \<Rightarrow> nat" where
  "digits_val ds = foldl (\<lambda>a d. 10 * a + (d - 48)) 0 ds"

text \<open>
  The list holds, in some order, what the threads have appended so far.
\<close>

definition log_ok :: "nat \<Rightarrow> demo_state \<Rightarrow> bool" where
  "log_ok m s = (mset (shared_data s) = mset (concat (map (entries_of m) (threads s))))"

text \<open>
  The entries of each thread stand in the list in the order of its loop.
\<close>

definition order_ok :: "nat \<Rightarrow> demo_state \<Rightarrow> bool" where
  "order_ok m s =
     (\<forall>t < length (threads s). filter (own (int t)) (shared_data s) = entries_of m (threads s ! t))"

text \<open>
  The number of steps a thread, the main thread and the whole program have left.
\<close>

fun thr_rem :: "nat \<Rightarrow> worker_pc \<Rightarrow> nat" where
  "thr_rem m (At_for i) = 5 * (m - i) + 1"
| "thr_rem m (At_with i) = 5 * (m - i)"
| "thr_rem m (At_append i) = 5 * (m - i) - 1"
| "thr_rem m (At_release i) = 5 * (m - i) - 2"
| "thr_rem m (At_sleep i) = 5 * (m - i) - 3"
| "thr_rem m Returned = 0"

fun main_rem :: "nat \<Rightarrow> nat \<Rightarrow> nat \<Rightarrow> main_pc \<Rightarrow> nat" where
  "main_rem n m len (Spawning i) = (n - i) * (5 * m + 2) + n + 2"
| "main_rem n m len (Joining j) = (len - j) + 1"
| "main_rem n m len Main_done = 0"

definition remaining :: "nat \<Rightarrow> nat \<Rightarrow> demo_state \<Rightarrow> nat" where
  "remaining n m s =
     main_rem n m (length (threads s)) (main s) + sum_list (map (\<lambda>th. thr_rem m (snd th)) (threads s))"

text \<open>
  The entries of \<open>n\<close> threads doing \<open>m\<close> rounds each, thread by thread.
\<close>

definition expected :: "nat \<Rightarrow> nat \<Rightarrow> pystr list" where
  "expected n m = map (\<lambda>(t, i). entry (int t) (int i)) (List.product [0..<n] [0..<m])"

text \<open>
  The code points of an ASCII literal.
\<close>

definition codepoints :: "string \<Rightarrow> pystr" where
  "codepoints cs = map of_char cs"

text \<open>
  A schedule in which the threads take turns, one round of the loop at a time.
\<close>

definition turns :: "nat \<Rightarrow> nat \<Rightarrow> actor list" where
  "turns n m =
     replicate (Suc n) Main @
     concat (replicate m (concat (map (\<lambda>t. replicate 5 (Worker t)) [0..<n]))) @
     map Worker [0..<n] @
     replicate (Suc n) Main"

text \<open>
  States used as examples: the end of the execution \<open>turns 3 5\<close>; the states after and
  before the first append of thread 0; and, with two threads started, the states in which
  both wait for the lock, thread 0 holds it before its append, and thread 0 holds it
  after its append.
\<close>

definition interleaved_final :: demo_state where
  "interleaved_final =
     \<lparr>shared_data =
        [entry 0 0, entry 1 0, entry 2 0, entry 0 1, entry 1 1, entry 2 1, entry 0 2, entry 1 2,
         entry 2 2, entry 0 3, entry 1 3, entry 2 3, entry 0 4, entry 1 4, entry 2 4],
      lock = False, threads = [(0, Returned), (1, Returned), (2, Returned)], main = Main_done\<rparr>"

definition first_append :: demo_state where
  "first_append =
     \<lparr>shared_data = [[32447, 31243, 48, 45, 20219, 21153, 48]], lock = True,
      threads = [(0, At_release 0)], main = Spawning 1\<rparr>"

definition before_first_append :: demo_state where
  "before_first_append =
     \<lparr>shared_data = [], lock = True, threads = [(0, At_append 0)], main = Spawning 1\<rparr>"

definition contended :: demo_state where
  "contended =
     \<lparr>shared_data = [], lock = True, threads = [(0, At_append 0), (1, At_with 0)],
      main = Spawning 2\<rparr>"

definition waiting :: demo_state where
  "waiting =
     \<lparr>shared_data = [], lock = False, threads = [(0, At_with 0), (1, At_with 0)],
      main = Spawning 2\<rparr>"

definition after_append :: demo_state where
  "after_append =
     \<lparr>shared_data = [entry 0 0], lock = True, threads = [(0, At_release 0), (1, At_with 0)],
      main = Spawning 2\<rparr>"


subsection \<open>Calling a function in sequence and through a thread pool\<close>

text \<open>
  Lines 56-60 for any function and argument list: \<^verbatim>\<open>results = []\<close>, then one call per
  argument, in order, each result appended. (The script itself calls \<^verbatim>\<open>io_intensive_task\<close>
  three times without arguments, and \<^verbatim>\<open>cpu_intensive_task(5000000)\<close> twice at lines 23-24.)
\<close>

definition run_sequential :: "('a \<Rightarrow> 'b) \<Rightarrow> 'a list \<Rightarrow> 'b list" where
  "run_sequential task args = foldl (\<lambda>results a. results @ [task a]) [] args"

text \<open>
  Where the calling thread stands in lines 65-67: submitting (with the number of calls
  submitted), collecting \<^verbatim>\<open>future.result()\<close> (with the index of the future it waits for),
  leaving the \<^verbatim>\<open>with\<close> block (which waits for the pool to shut down), or past it.
\<close>

datatype pool_pc = Submitting nat | Collecting nat | Shutdown | Exited

text \<open>
  A \<^verbatim>\<open>ThreadPoolExecutor\<close>: the queue of submitted calls (each with the index of its future
  and its argument), the pool's threads (idle or running one call), the list \<^verbatim>\<open>futures\<close>
  (a future holds no result until its call has finished) and the list \<^verbatim>\<open>results\<close>.
\<close>

record ('a, 'b) pool_state =
  work_queue :: "(nat \<times> 'a) list"
  pool_workers :: "(nat \<times> 'a) option list"
  futures :: "'b option list"
  results :: "'b list"
  caller :: pool_pc

text \<open>
  The threads of the pool program: the calling thread and the pool's threads.
\<close>

datatype pool_actor = Caller | Pool_worker nat

text \<open>
  One atomic step of the calling thread. \<^verbatim>\<open>executor.submit\<close> queues the call and appends
  its future; \<^verbatim>\<open>future.result()\<close> blocks until the future holds a result; leaving the
  \<^verbatim>\<open>with\<close> block blocks until the queue is empty and every thread of the pool is idle.
\<close>

definition caller_step :: "'a list \<Rightarrow> ('a, 'b) pool_state \<Rightarrow> ('a, 'b) pool_state option" where
  "caller_step args s =
     (case caller s of
        Submitting k \<Rightarrow>
          Some (if k < length args
                then s\<lparr>work_queue := work_queue s @ [(length (futures s), args ! k)],
                       futures := futures s @ [None], caller := Submitting (Suc k)\<rparr>
                else s\<lparr>caller := Collecting 0\<rparr>)
      | Collecting k \<Rightarrow>
          if k < length (futures s)
          then (case futures s ! k of
                  None \<Rightarrow> None
                | Some r \<Rightarrow> Some (s\<lparr>results := results s @ [r], caller := Collecting (Suc k)\<rparr>))
          else Some (s\<lparr>caller := Shutdown\<rparr>)
      | Shutdown \<Rightarrow>
          if work_queue s = [] \<and> list_all (\<lambda>w. w = None) (pool_workers s)
          then Some (s\<lparr>caller := Exited\<rparr>) else None
      | Exited \<Rightarrow> None)"

text \<open>
  One atomic step of thread \<open>w\<close> of the pool: an idle thread takes the oldest queued call,
  a running thread finishes its call and stores the result in the call's future.
\<close>

definition pool_worker_step ::
  "('a \<Rightarrow> 'b) \<Rightarrow> nat \<Rightarrow> ('a, 'b) pool_state \<Rightarrow> ('a, 'b) pool_state option" where
  "pool_worker_step task w s =
     (if length (pool_workers s) \<le> w then None
      else case pool_workers s ! w of
        None \<Rightarrow>
          (case work_queue s of
             [] \<Rightarrow> None
           | item # queue \<Rightarrow>
               Some (s\<lparr>work_queue := queue, pool_workers := (pool_workers s)[w := Some item]\<rparr>))
      | Some (k, a) \<Rightarrow>
          Some (s\<lparr>futures := (futures s)[k := Some (task a)],
                  pool_workers := (pool_workers s)[w := None]\<rparr>))"

fun pool_step ::
  "('a \<Rightarrow> 'b) \<Rightarrow> 'a list \<Rightarrow> pool_actor \<Rightarrow> ('a, 'b) pool_state \<Rightarrow> ('a, 'b) pool_state option" where
  "pool_step task args Caller s = caller_step args s"
| "pool_step task args (Pool_worker w) s = pool_worker_step task w s"

fun pool_run ::
  "('a \<Rightarrow> 'b) \<Rightarrow> 'a list \<Rightarrow> pool_actor list \<Rightarrow> ('a, 'b) pool_state option \<Rightarrow>
     ('a, 'b) pool_state option" where
  "pool_run task args [] r = r"
| "pool_run task args (x # xs) r = pool_run task args xs (Option.bind r (pool_step task args x))"

text \<open>
  \<^verbatim>\<open>ThreadPoolExecutor(max_workers=...)\<close> raises \<^verbatim>\<open>ValueError\<close> unless \<^verbatim>\<open>max_workers\<close> is
  positive.
\<close>

definition pool_init :: "int \<Rightarrow> py_error + ('a, 'b) pool_state" where
  "pool_init max_workers =
     (if max_workers \<le> 0 then Inl ValueError
      else Inr \<lparr>work_queue = [], pool_workers = replicate (nat max_workers) None, futures = [],
                results = [], caller = Submitting 0\<rparr>)"

text \<open>
  Lines 64-68 for any function, argument list and pool size, under a given schedule:
  the error of the constructor, or the list \<^verbatim>\<open>results\<close> once the \<^verbatim>\<open>with\<close> block is left.
  \<open>None\<close> means that the schedule is not a complete execution of the block.
\<close>

definition run_concurrent ::
  "('a \<Rightarrow> 'b) \<Rightarrow> 'a list \<Rightarrow> int \<Rightarrow> pool_actor list \<Rightarrow> (py_error + 'b list) option" where
  "run_concurrent task args max_workers sched =
     (case pool_init max_workers of
        Inl e \<Rightarrow> Some (Inl e)
      | Inr s0 \<Rightarrow>
          (case pool_run task args sched (Some s0) of
             None \<Rightarrow> None
           | Some s \<Rightarrow> if caller s = Exited then Some (Inr (results s)) else None))"

text \<open>
  Modelled from the spec: the function \<open>square\<close> of the example scenario, which the script
  does not define.
\<close>

definition square :: "int \<Rightarrow> int" where
  "square x = x * x"

text \<open>
  The calls that the pool's threads are running, and the indices of the futures that hold
  no result yet.
\<close>

fun busy :: "'x option list \<Rightarrow> 'x list" where
  "busy [] = []"
| "busy (None # ws) = busy ws"
| "busy (Some x # ws) = x # busy ws"

definition pending :: "'b option list \<Rightarrow> nat list" where
  "pending fs = filter (\<lambda>j. fs ! j = None) [0..<length fs]"

text \<open>
  The invariant of the pool, in four parts: the calling thread's progress, the futures'
  contents, the queued and running calls, and the account of unfinished calls.
\<close>

definition caller_ok :: "('a \<Rightarrow> 'b) \<Rightarrow> 'a list \<Rightarrow> ('a, 'b) pool_state \<Rightarrow> bool" where
  "caller_ok task args s =
     (case caller s of
        Submitting k \<Rightarrow> k \<le> length args \<and> length (futures s) = k \<and> results s = []
      | Collecting k \<Rightarrow>
          length (futures s) = length args \<and> k \<le> length args \<and>
          results s = map task (take k args) \<and> (\<forall>j < k. futures s ! j \<noteq> None)
      | Shutdown \<Rightarrow>
          length (futures s) = length args \<and> results s = map task args \<and>
          (\<forall>j < length args. futures s ! j \<noteq> None)
      | Exited \<Rightarrow> length (futures s) = length args \<and> results s = map task args)"

definition futures_ok :: "('a \<Rightarrow> 'b) \<Rightarrow> 'a list \<Rightarrow> ('a, 'b) pool_state \<Rightarrow> bool" where
  "futures_ok task args s =
     (length (futures s) \<le> length args \<and>
      (\<forall>j < length (futures s). futures s ! j = None \<or> futures s ! j = Some (task (args ! j))))"

definition items_ok :: "'a list \<Rightarrow> ('a, 'b) pool_state \<Rightarrow> bool" where
  "items_ok args s =
     (\<forall>item \<in> set (work_queue s) \<union> set (busy (pool_workers s)).
        fst item < length (futures s) \<and> snd item = args ! fst item)"

definition pending_ok :: "('a, 'b) pool_state \<Rightarrow> bool" where
  "pending_ok s =
     (mset (map fst (work_queue s)) + mset (map fst (busy (pool_workers s))) =
      mset (pending (futures s)))"

definition pool_inv :: "('a \<Rightarrow> 'b) \<Rightarrow> 'a list \<Rightarrow> int \<Rightarrow> ('a, 'b) pool_state \<Rightarrow> bool" where
  "pool_inv task args max_workers s =
     (caller_ok task args s \<and> futures_ok task args s \<and> items_ok args s \<and> pending_ok s \<and>
      0 < max_workers \<and> length (pool_workers s) = nat max_workers)"

text \<open>
  The number of steps the calling thread and the whole pool have left.
\<close>

fun caller_rem :: "nat \<Rightarrow> nat \<Rightarrow> pool_pc \<Rightarrow> nat" where
  "caller_rem n len (Submitting k) = 3 * (n - k) + n + 4"
| "caller_rem n len (Collecting k) = (len - k) + 2"
| "caller_rem n len Shutdown = 1"
| "caller_rem n len Exited = 0"

definition pool_remaining :: "'a list \<Rightarrow> ('a, 'b) pool_state \<Rightarrow> nat" where
  "pool_remaining args s =
     caller_rem (length args) (length (futures s)) (caller s) +
     2 * length (work_queue s) + length (busy (pool_workers s))"

text \<open>
  An execution of the pool in which the three calls finish in the reverse of the order
  in which they were submitted.
\<close>

definition reversed_completion :: "pool_actor list" where
  "reversed_completion =
     [Caller, Caller, Caller, Caller,
      Pool_worker 0, Pool_worker 1, Pool_worker 2,
      Pool_worker 2, Pool_worker 1, Pool_worker 0,
      Caller, Caller, Caller, Caller, Caller]"

text \<open>
  States of the pool used as examples: a fresh pool of three threads, and the state in
  which the first result has been collected while the other two calls are still queued.
\<close>

definition pool_start :: "(int, int) pool_state" where
  "pool_start =
     \<lparr>work_queue = [], pool_workers = [None, None, None], futures = [], results = [],
      caller = Submitting 0\<rparr>"

definition one_collected :: "(int, int) pool_state" where
  "one_collected =
     \<lparr>work_queue = [(1, 2), (2, 3)], pool_workers = [None, None, None],
      futures = [Some 1, None, None], results = [1], caller = Collecting 1\<rparr>"


section \<open>Properties\<close>

subsection \<open>The CPU-bound functions, the ratio and the I/O-bound function\<close>

text \<open>
  The loop of the CPU-bound functions adds up a list.
\<close>

lemma foldl_add_sum_list:
  "foldl (\<lambda>result i. result + f i) a xs = a + sum_list (map f xs)"
  for a :: int
  by (induction xs arbitrary: a) simp_all

lemma cpu_loop_sum: "foldl (\<lambda>result i. result + i * i) 0 (py_range n) = (\<Sum>i\<in>{0..<n}. i * i)"
proof -
  have "foldl (\<lambda>result i. result + i * i) 0 (py_range n) = sum_list (map (\<lambda>i. i * i) [0..n - 1])"
    by (simp add: foldl_add_sum_list py_range_def)
  also have "\<dots> = (\<Sum>i\<in>set [0..n - 1]. i * i)"
    by (rule sum_list_distinct_conv_sum_set) simp
  also have "set [0..n - 1] = {0..<n}"
    by auto
  finally show ?thesis .
qed

lemma six_squares: "6 * (\<Sum>i\<in>{0..<int k}. i * i) = (int k - 1) * int k * (2 * int k - 1)"
proof (induction k)
  case 0
  show ?case by simp
next
  case (Suc k)
  have "{0..<int (Suc k)} = insert (int k) {0..<int k}"
    by auto
  then have "(\<Sum>i\<in>{0..<int (Suc k)}. i * i) = int k * int k + (\<Sum>i\<in>{0..<int k}. i * i)"
    by simp
  with Suc show ?case
    by (simp add: algebra_simps)
qed

text \<open>
  C9: for every integer \<open>n \<ge> 0\<close>, \<^verbatim>\<open>cpu_intensive_task(n)\<close> returns the sum of \<open>i * i\<close> for
  \<open>i\<close> from \<open>0\<close> to \<open>n - 1\<close>, which is \<open>(n - 1) * n * (2 * n - 1) / 6\<close> (the division is
  exact), and \<open>0\<close> for \<open>n = 0\<close>. The function is total: the loop runs over a finite list.
\<close>

theorem cpu_intensive_task_closed_form:
  assumes "0 \<le> n"
  shows "cpu_intensive_task n = (\<Sum>i\<in>{0..<n}. i * i) \<and>
         6 * cpu_intensive_task n = (n - 1) * n * (2 * n - 1) \<and>
         cpu_intensive_task n = (n - 1) * n * (2 * n - 1) div 6 \<and>
         (n = 0 \<longrightarrow> cpu_intensive_task n = 0)"
proof -
  have s: "cpu_intensive_task n = (\<Sum>i\<in>{0..<n}. i * i)"
    by (simp add: cpu_intensive_task_def cpu_loop_sum)
  from assms obtain k where k: "n = int k"
    using nonneg_int_cases by blast
  from six_squares [of k] s k have six: "6 * cpu_intensive_task n = (n - 1) * n * (2 * n - 1)"
    by simp
  then have "cpu_intensive_task n = (n - 1) * n * (2 * n - 1) div 6"
    by presburger
  moreover have "n = 0 \<longrightarrow> cpu_intensive_task n = 0"
    using six by auto
  ultimately show ?thesis using s six by blast
qed

text \<open>
  At \<open>n = 4\<close> the sum is \<open>0 + 1 + 4 + 9 = 14\<close>.
\<close>

theorem cpu_intensive_task_closed_form_witness:
  "(0::int) \<le> 4 \<and> cpu_intensive_task 4 = (\<Sum>i\<in>{0..<4}. i * i) \<and>
   6 * cpu_intensive_task 4 = 84 \<and> cpu_intensive_task 4 = 14 \<and> cpu_intensive_task 0 = 0"
proof -
  have h: "(0::int) \<le> 4" and h0: "(0::int) \<le> 0" by simp_all
  from cpu_intensive_task_closed_form [OF h] cpu_intensive_task_closed_form [OF h0]
  show ?thesis by simp
qed

text \<open>
  C10: for every integer \<open>n\<close>, \<^verbatim>\<open>cpu_task_for_process(n)\<close> returns the same value as
  \<^verbatim>\<open>cpu_intensive_task(n)\<close>.
\<close>

theorem cpu_task_for_process_eq: "cpu_task_for_process n = cpu_intensive_task n"
  by (simp add: cpu_task_for_process_def cpu_intensive_task_def)

text \<open>
  C4 says that the ratio is guarded against a zero divisor. The division of lines 37 and
  70 is not: with a single-thread time of one second and a multi-thread time of zero it
  raises \<^verbatim>\<open>ZeroDivisionError\<close>.
\<close>

theorem speedup_zero_counterexample: "speedup 1 0 = Inl ZeroDivisionError"
  by (simp add: speedup_def truediv_def)

text \<open>
  C4, as the code has it: the ratio raises \<^verbatim>\<open>ZeroDivisionError\<close> whenever the second time
  is zero, and is the quotient of the two times otherwise.
\<close>

theorem speedup_unguarded:
  "speedup a 0 = Inl ZeroDivisionError \<and> (b \<noteq> 0 \<longrightarrow> speedup a b = Inr (a / b))"
  by (simp add: speedup_def truediv_def)

text \<open>
  Three seconds against two give \<open>3 / 2\<close>.
\<close>

theorem speedup_unguarded_witness:
  "speedup 3 0 = Inl ZeroDivisionError \<and> (2::real) \<noteq> 0 \<and> speedup 3 2 = Inr (3 / 2)"
  using speedup_unguarded [of 3 2] by simp

text \<open>
  C5 says that \<^verbatim>\<open>io_intensive_task\<close> never raises. The fallback sleep is not protected:
  when the request fails and the sleep is interrupted, the interrupt leaves the function.
\<close>

theorem io_intensive_task_interrupted_counterexample:
  "io_intensive_task (Raised ConnectionError) (Interrupted KeyboardInterrupt) =
     (Inl KeyboardInterrupt, [Http_get, Sleep 1])"
  by (simp add: io_intensive_task_def)

lemma io_intensive_task_raises_iff:
  "fst (io_intensive_task network nap) = Inl x \<longleftrightarrow>
     (\<exists>e. network = Raised e) \<and> nap = Interrupted x"
  by (cases network; cases nap) (auto simp: io_intensive_task_def)

text \<open>
  C5, as the code has it. When the request returns, the function returns the response's
  status code and does not sleep. When the request raises, whatever the exception, that
  exception is caught and never reaches the caller; the function sleeps one second and
  returns 200 if the sleep runs to its end. So the function returns a status code
  whenever the fallback sleep is not interrupted, and the only exception that can leave
  it is one raised by the fallback sleep, after a failed request.
\<close>

theorem io_intensive_task_fallback:
  "io_intensive_task (Response status_code) nap = (Inr status_code, [Http_get]) \<and>
   io_intensive_task (Raised e) Slept = (Inr 200, [Http_get, Sleep 1]) \<and>
   io_intensive_task (Raised e) (Interrupted e') = (Inl e', [Http_get, Sleep 1]) \<and>
   (nap = Slept \<longrightarrow> (\<exists>status. fst (io_intensive_task network nap) = Inr status)) \<and>
   (fst (io_intensive_task network nap) = Inl x \<longrightarrow>
      (\<exists>e. network = Raised e) \<and> nap = Interrupted x)"
proof (intro conjI impI)
  show "io_intensive_task (Response status_code) nap = (Inr status_code, [Http_get])"
    by (simp add: io_intensive_task_def)
  show "io_intensive_task (Raised e) Slept = (Inr 200, [Http_get, Sleep 1])"
    by (simp add: io_intensive_task_def)
  show "io_intensive_task (Raised e) (Interrupted e') = (Inl e', [Http_get, Sleep 1])"
    by (simp add: io_intensive_task_def)
next
  assume "nap = Slept"
  then show "\<exists>status. fst (io_intensive_task network nap) = Inr status"
    by (cases network) (simp_all add: io_intensive_task_def)
next
  assume "fst (io_intensive_task network nap) = Inl x"
  then show "\<exists>e. network = Raised e" and "nap = Interrupted x"
    by (simp_all add: io_intensive_task_raises_iff)
qed

text \<open>
  A response 503 is returned as it is; a timed-out request followed by a full sleep gives
  200; a failed connection followed by an interrupted sleep raises the interrupt.
\<close>

theorem io_intensive_task_fallback_witness:
  "io_intensive_task (Response 503) (Interrupted KeyboardInterrupt) = (Inr 503, [Http_get]) \<and>
   io_intensive_task (Raised ReadTimeout) Slept = (Inr 200, [Http_get, Sleep 1]) \<and>
   (\<exists>status. fst (io_intensive_task (Raised ReadTimeout) Slept) = Inr status) \<and>
   fst (io_intensive_task (Raised ConnectionError) (Interrupted KeyboardInterrupt)) =
     Inl KeyboardInterrupt \<and>
   (\<exists>e. Raised ConnectionError = (Raised e :: py_exception http_result))"
proof -
  have raised: "fst (io_intensive_task (Raised ConnectionError) (Interrupted KeyboardInterrupt)) =
      Inl KeyboardInterrupt"
    by (simp add: io_intensive_task_def)
  from io_intensive_task_fallback
    [of 503 "Interrupted KeyboardInterrupt" ReadTimeout KeyboardInterrupt
      "Raised ConnectionError" KeyboardInterrupt]
  have a: "io_intensive_task (Response 503) (Interrupted KeyboardInterrupt) = (Inr 503, [Http_get])"
    and b: "io_intensive_task (Raised ReadTimeout) Slept = (Inr 200, [Http_get, Sleep 1])"
    and c: "fst (io_intensive_task (Raised ConnectionError) (Interrupted KeyboardInterrupt)) =
        Inl KeyboardInterrupt \<longrightarrow>
      (\<exists>e. Raised ConnectionError = (Raised e :: py_exception http_result))"
    by blast+
  from io_intensive_task_fallback [of 0 Slept ReadTimeout KeyboardInterrupt "Raised ReadTimeout"]
  have d: "\<exists>status. fst (io_intensive_task (Raised ReadTimeout) (Slept :: py_exception sleep_result)) =
      Inr status"
    by blast
  from a b c d raised show ?thesis by blast
qed


subsection \<open>The shared list\<close>

text \<open>
  Case rules: what a step of a worker, of the main thread and of the program can be.
\<close>

lemma set_pc_simps [simp]:
  "threads (set_pc t p s) = (threads s)[t := (fst (threads s ! t), p)]"
  "shared_data (set_pc t p s) = shared_data s"
  "lock (set_pc t p s) = lock s"
  "main (set_pc t p s) = main s"
  by (simp_all add: set_pc_def)

lemma worker_cases [consumes 1, case_names At_for At_with At_append At_release At_sleep]:
  assumes "worker m t s = Some s'"
  obtains
    i where "t < length (threads s)" "snd (threads s ! t) = At_for i"
      "s' = set_pc t (if i < m then At_with i else Returned) s"
  | i where "t < length (threads s)" "snd (threads s ! t) = At_with i" "\<not> lock s"
      "s' = set_pc t (At_append i) (s\<lparr>lock := True\<rparr>)"
  | i where "t < length (threads s)" "snd (threads s ! t) = At_append i"
      "s' = set_pc t (At_release i) (s\<lparr>shared_data := shared_data s @ [entry (fst (threads s ! t)) (int i)]\<rparr>)"
  | i where "t < length (threads s)" "snd (threads s ! t) = At_release i"
      "s' = set_pc t (At_sleep i) (s\<lparr>lock := False\<rparr>)"
  | i where "t < length (threads s)" "snd (threads s ! t) = At_sleep i"
      "s' = set_pc t (At_for (Suc i)) s"
  using assms unfolding worker_def
  by (auto split: if_splits worker_pc.splits)

lemma main_cases [consumes 1, case_names Spawn Spawned Join Joined]:
  assumes "main_thread n s = Some s'"
  obtains
    i where "main s = Spawning i" "i < n"
      "s' = s\<lparr>threads := threads s @ [(int i, At_for 0)], main := Spawning (Suc i)\<rparr>"
  | i where "main s = Spawning i" "\<not> i < n" "s' = s\<lparr>main := Joining 0\<rparr>"
  | j where "main s = Joining j" "j < length (threads s)" "snd (threads s ! j) = Returned"
      "s' = s\<lparr>main := Joining (Suc j)\<rparr>"
  | j where "main s = Joining j" "\<not> j < length (threads s)" "s' = s\<lparr>main := Main_done\<rparr>"
  using assms unfolding main_thread_def
  by (auto split: if_splits main_pc.splits)

lemma step_cases [consumes 1, case_names Main Worker]:
  assumes "step n m a s = Some s'"
  obtains "a = Main" "main_thread n s = Some s'"
  | t where "a = Worker t" "worker m t s = Some s'"
  using assms by (cases a) auto

text \<open>
  Thread identities, loop bounds and the main thread's progress are invariant.
\<close>

lemma basic_main:
  assumes "basic n m s" and "main_thread n s = Some s'"
  shows "basic n m s'"
  using assms(2,1)
  by (cases rule: main_cases)
    (auto simp: basic_def threads_ok_def main_ok_def nth_append less_Suc_eq)

lemma basic_worker:
  assumes "basic n m s" and "worker m t s = Some s'"
  shows "basic n m s'"
  using assms(2,1)
  by (cases rule: worker_cases)
    (auto simp: basic_def threads_ok_def main_ok_def nth_list_update split: main_pc.splits)

lemma basic_reachable: "reachable n m s \<Longrightarrow> basic n m s"
proof (induction rule: reachable.induct)
  case reach_init
  show ?case by (simp add: basic_def threads_ok_def main_ok_def init_def)
next
  case (reach_step s a s')
  from reach_step.hyps(2) reach_step.IH show ?case
    by (cases rule: step_cases) (auto intro: basic_main basic_worker)
qed

text \<open>
  Mutual exclusion. Replacing one element of a list changes the number of elements with
  a property by that element's share only.
\<close>

lemma filter_update_count:
  "t < length xs \<Longrightarrow>
     length (filter P (xs[t := y])) + (if P (xs ! t) then 1 else 0) =
     length (filter P xs) + (if P y then 1 else 0)"
proof (induction xs arbitrary: t)
  case Nil
  then show ?case by simp
next
  case (Cons x xs)
  then show ?case by (cases t) auto
qed

lemma mutex_worker:
  assumes "mutex s" and "worker m t s = Some s'"
  shows "mutex s'"
  using assms(2)
proof (cases rule: worker_cases)
  case (At_for i)
  with assms(1) filter_update_count [of t "threads s" "\<lambda>th. in_cs (snd th)" "(fst (threads s ! t), if i < m then At_with i else Returned)"]
  show ?thesis by (auto simp: mutex_def cs_count_def split: if_splits)
next
  case (At_with i)
  with assms(1) filter_update_count [of t "threads s" "\<lambda>th. in_cs (snd th)" "(fst (threads s ! t), At_append i)"]
  show ?thesis by (auto simp: mutex_def cs_count_def split: if_splits)
next
  case (At_append i)
  with assms(1) filter_update_count [of t "threads s" "\<lambda>th. in_cs (snd th)" "(fst (threads s ! t), At_release i)"]
  show ?thesis by (auto simp: mutex_def cs_count_def split: if_splits)
next
  case (At_release i)
  with assms(1) filter_update_count [of t "threads s" "\<lambda>th. in_cs (snd th)" "(fst (threads s ! t), At_sleep i)"]
  show ?thesis by (auto simp: mutex_def cs_count_def split: if_splits)
next
  case (At_sleep i)
  with assms(1) filter_update_count [of t "threads s" "\<lambda>th. in_cs (snd th)" "(fst (threads s ! t), At_for (Suc i))"]
  show ?thesis by (auto simp: mutex_def cs_count_def split: if_splits)
qed

lemma mutex_main:
  assumes "mutex s" and "main_thread n s = Some s'"
  shows "mutex s'"
  using assms(2,1)
  by (cases rule: main_cases) (auto simp: mutex_def cs_count_def)

lemma mutex_reachable: "reachable n m s \<Longrightarrow> mutex s"
proof (induction rule: reachable.induct)
  case reach_init
  show ?case by (simp add: mutex_def cs_count_def init_def)
next
  case (reach_step s a s')
  from reach_step.hyps(2) reach_step.IH show ?case
    by (cases rule: step_cases) (auto intro: mutex_main mutex_worker)
qed

text \<open>
  An entry determines its thread and its round: decimal digits contain no hyphen, and
  the digits of a number determine the number.
\<close>

lemma digits_range: "c \<in> set (digits n) \<Longrightarrow> 48 \<le> c \<and> c \<le> 57"
proof (induction n rule: digits.induct)
  case (1 n)
  show ?case
  proof (cases "n < 10")
    case True
    with "1.prems" show ?thesis by (simp add: digits.simps [of n])
  next
    case False
    with "1.prems" "1.IH" show ?thesis
      by (auto simp: digits.simps [of n])
  qed
qed

lemma digits_no_hyphen: "45 \<notin> set (digits n)"
  using digits_range [of 45 n] by auto

lemma digits_val_digits: "digits_val (digits n) = n"
proof (induction n rule: digits.induct)
  case (1 n)
  show ?case
  proof (cases "n < 10")
    case True
    then show ?thesis by (simp add: digits.simps [of n] digits_val_def)
  next
    case False
    then have unfold: "digits n = digits (n div 10) @ [48 + n mod 10]"
      by (simp add: digits.simps [of n])
    have "digits_val (digits n) = 10 * digits_val (digits (n div 10)) + n mod 10"
      unfolding unfold by (simp add: digits_val_def)
    also have "\<dots> = 10 * (n div 10) + n mod 10"
      by (simp only: "1.IH" [OF False])
    also have "\<dots> = n" by simp
    finally show ?thesis .
  qed
qed

lemma digits_inj: "digits a = digits b \<Longrightarrow> a = b"
  by (metis digits_val_digits)

lemma py_str_int [simp]: "py_str (int k) = digits k"
  by (simp add: py_str_def)

lemma split_at_first:
  "x \<notin> set a \<Longrightarrow> x \<notin> set b \<Longrightarrow> a @ x # r = b @ x # r' \<Longrightarrow> a = b \<and> r = r'"
proof (induction a arbitrary: b)
  case Nil
  then show ?case by (cases b) auto
next
  case (Cons y a)
  then show ?case by (cases b) auto
qed

lemma entry_inj:
  assumes "entry (int k) (int i) = entry (int k') (int i')"
  shows "k = k' \<and> i = i'"
proof -
  from assms have "digits k @ 45 # ([20219, 21153] @ digits i) = digits k' @ 45 # ([20219, 21153] @ digits i')"
    by (simp add: entry_def)
  then have "digits k = digits k' \<and> [20219, 21153] @ digits i = [20219, 21153] @ digits i'"
    by (rule split_at_first [OF digits_no_hyphen digits_no_hyphen])
  then show ?thesis by (auto dest: digits_inj)
qed

lemma own_entry [simp]: "own (int t) (entry (int k) (int i)) \<longleftrightarrow> t = k"
proof
  assume "own (int t) (entry (int k) (int i))"
  then obtain r where "entry (int k) (int i) = tag (int t) @ r"
    by (auto simp: own_def prefix_def)
  then have "digits k @ 45 # ([20219, 21153] @ digits i) = digits t @ 45 # r"
    by (simp add: entry_def tag_def)
  then have "digits k = digits t"
    using split_at_first [OF digits_no_hyphen digits_no_hyphen] by blast
  then show "t = k" by (auto dest: digits_inj)
next
  assume "t = k"
  then show "own (int t) (entry (int k) (int i))"
    by (simp add: own_def prefix_def entry_def tag_def)
qed

text \<open>
  The list as a multiset of what the threads have appended.
\<close>

lemma concat_map_update:
  "t < length xs \<Longrightarrow>
     mset (concat (map f (xs[t := y]))) + mset (f (xs ! t)) =
     mset (concat (map f xs)) + mset (f y)"
proof (induction xs arbitrary: t)
  case Nil
  then show ?case by simp
next
  case (Cons x xs)
  then show ?case by (cases t) auto
qed

lemma concat_map_same:
  "t < length xs \<Longrightarrow> f y = f (xs ! t) \<Longrightarrow>
     mset (concat (map f (xs[t := y]))) = mset (concat (map f xs))"
  using concat_map_update [of t xs f y] by simp

lemma log_ok_main:
  assumes "log_ok m s" and "main_thread n s = Some s'"
  shows "log_ok m s'"
  using assms(2,1)
  by (cases rule: main_cases) (auto simp: log_ok_def entries_of_def)

lemma log_ok_worker:
  assumes "log_ok m s" and "basic n m s" and "worker m t s = Some s'"
  shows "log_ok m s'"
  using assms(3)
proof (cases rule: worker_cases)
  case (At_for i)
  from At_for(1,2) assms(2) have "i \<le> m"
    by (auto simp: basic_def threads_ok_def)
  with At_for have "entries_of m (fst (threads s ! t), if i < m then At_with i else Returned) = entries_of m (threads s ! t)"
    by (cases "threads s ! t") (auto simp: entries_of_def)
  with At_for assms(1) show ?thesis
    by (simp add: log_ok_def concat_map_same)
next
  case (At_with i)
  then have "entries_of m (fst (threads s ! t), At_append i) = entries_of m (threads s ! t)"
    by (cases "threads s ! t") (auto simp: entries_of_def)
  with At_with assms(1) show ?thesis
    by (simp add: log_ok_def concat_map_same)
next
  case (At_append i)
  then have "entries_of m (fst (threads s ! t), At_release i) =
      entries_of m (threads s ! t) @ [entry (fst (threads s ! t)) (int i)]"
    by (cases "threads s ! t") (auto simp: entries_of_def)
  with At_append assms(1)
    concat_map_update [of t "threads s" "entries_of m" "(fst (threads s ! t), At_release i)"]
  show ?thesis
    by (simp add: log_ok_def)
next
  case (At_release i)
  then have "entries_of m (fst (threads s ! t), At_sleep i) = entries_of m (threads s ! t)"
    by (cases "threads s ! t") (auto simp: entries_of_def)
  with At_release assms(1) show ?thesis
    by (simp add: log_ok_def concat_map_same)
next
  case (At_sleep i)
  then have "entries_of m (fst (threads s ! t), At_for (Suc i)) = entries_of m (threads s ! t)"
    by (cases "threads s ! t") (auto simp: entries_of_def)
  with At_sleep assms(1) show ?thesis
    by (simp add: log_ok_def concat_map_same)
qed

lemma log_ok_reachable: "reachable n m s \<Longrightarrow> log_ok m s"
proof (induction rule: reachable.induct)
  case reach_init
  show ?case by (simp add: log_ok_def init_def)
next
  case (reach_step s a s')
  from reach_step.hyps(2) reach_step.IH basic_reachable [OF reach_step.hyps(1)] show ?case
    by (cases rule: step_cases) (auto intro: log_ok_main log_ok_worker)
qed

lemma entry_origin:
  assumes "reachable n m s" and "e \<in> set (shared_data s)"
  shows "\<exists>t i. t < length (threads s) \<and> i < m \<and> e = entry (int t) (int i)"
proof -
  from assms(1) have ok: "threads_ok m s" and lg: "log_ok m s"
    using basic_reachable log_ok_reachable by (auto simp: basic_def)
  from assms(2) have "e \<in># mset (shared_data s)" by simp
  with lg have "e \<in> set (concat (map (entries_of m) (threads s)))"
    by (simp add: log_ok_def)
  then obtain th where th: "th \<in> set (threads s)" "e \<in> set (entries_of m th)"
    by auto
  then obtain t where t: "t < length (threads s)" "threads s ! t = th"
    by (auto simp: in_set_conv_nth)
  with ok have id: "fst th = int t" and pc: "pc_ok m (snd th)"
    by (auto simp: threads_ok_def)
  from th(2) obtain i where i: "i < appended m (snd th)" "e = entry (fst th) (int i)"
    by (auto simp: entries_of_def)
  from pc have "appended m (snd th) \<le> m"
    by (cases "snd th") auto
  with i have "i < m" by simp
  with i(2) id t(1) show ?thesis
    by (intro exI [of _ t] exI [of _ i]) simp
qed

lemma order_ok_reachable: "reachable n m s \<Longrightarrow> order_ok m s"
proof (induction rule: reachable.induct)
  case reach_init
  show ?case by (simp add: order_ok_def init_def)
next
  case (reach_step s a s')
  note bs = basic_reachable [OF reach_step.hyps(1)]
  from reach_step.hyps(2) show ?case
  proof (cases rule: step_cases)
    case Main
    from Main(2) show ?thesis
    proof (cases rule: main_cases)
      case (Spawn i)
      with bs have len: "length (threads s) = i"
        by (simp add: basic_def main_ok_def)
      have "filter (own (int i)) (shared_data s) = []"
      proof -
        have "\<not> own (int i) e" if "e \<in> set (shared_data s)" for e
          using entry_origin [OF reach_step.hyps(1) that] len by auto
        then show ?thesis by (simp add: filter_empty_conv)
      qed
      with Spawn len reach_step.IH show ?thesis
        by (auto simp: order_ok_def nth_append less_Suc_eq entries_of_def)
    next
      case (Spawned i)
      with reach_step.IH show ?thesis by (simp add: order_ok_def)
    next
      case (Join j)
      with reach_step.IH show ?thesis by (simp add: order_ok_def)
    next
      case (Joined j)
      with reach_step.IH show ?thesis by (simp add: order_ok_def)
    qed
  next
    case (Worker t)
    from Worker(2) show ?thesis
    proof (cases rule: worker_cases)
      case (At_for i)
      from At_for(1,2) bs have "i \<le> m"
        by (auto simp: basic_def threads_ok_def)
      with At_for have "entries_of m (fst (threads s ! t), if i < m then At_with i else Returned) = entries_of m (threads s ! t)"
        by (cases "threads s ! t") (auto simp: entries_of_def)
      with At_for reach_step.IH show ?thesis
        by (auto simp: order_ok_def nth_list_update)
    next
      case (At_with i)
      then have "entries_of m (fst (threads s ! t), At_append i) = entries_of m (threads s ! t)"
        by (cases "threads s ! t") (auto simp: entries_of_def)
      with At_with reach_step.IH show ?thesis
        by (auto simp: order_ok_def nth_list_update)
    next
      case (At_append i)
      from At_append(1) bs have id: "fst (threads s ! t) = int t"
        by (auto simp: basic_def threads_ok_def)
      from At_append have "entries_of m (fst (threads s ! t), At_release i) =
          entries_of m (threads s ! t) @ [entry (fst (threads s ! t)) (int i)]"
        by (cases "threads s ! t") (auto simp: entries_of_def)
      with At_append id reach_step.IH show ?thesis
        by (auto simp: order_ok_def nth_list_update)
    next
      case (At_release i)
      then have "entries_of m (fst (threads s ! t), At_sleep i) = entries_of m (threads s ! t)"
        by (cases "threads s ! t") (auto simp: entries_of_def)
      with At_release reach_step.IH show ?thesis
        by (auto simp: order_ok_def nth_list_update)
    next
      case (At_sleep i)
      then have "entries_of m (fst (threads s ! t), At_for (Suc i)) = entries_of m (threads s ! t)"
        by (cases "threads s ! t") (auto simp: entries_of_def)
      with At_sleep reach_step.IH show ?thesis
        by (auto simp: order_ok_def nth_list_update)
    qed
  qed
qed

text \<open>
  Termination: every step lowers the number of steps left.
\<close>

lemma sum_list_map_update:
  "t < length xs \<Longrightarrow>
     sum_list (map g (xs[t := y])) + g (xs ! t) = sum_list (map g xs) + (g y :: nat)"
proof (induction xs arbitrary: t)
  case Nil
  then show ?case by simp
next
  case (Cons x xs)
  then show ?case by (cases t) auto
qed

lemma remaining_worker:
  assumes "basic n m s" and "worker m t s = Some s'"
  shows "remaining n m s' < remaining n m s"
proof -
  from assms(2) have t: "t < length (threads s)"
    by (cases rule: worker_cases) auto
  with assms(1) have ok: "pc_ok m (snd (threads s ! t))"
    by (simp add: basic_def threads_ok_def)
  from assms(2) obtain p where p: "threads s' = (threads s)[t := (fst (threads s ! t), p)]"
    "main s' = main s" "thr_rem m p < thr_rem m (snd (threads s ! t))"
    using ok by (cases rule: worker_cases) auto
  from sum_list_map_update [OF t, of "\<lambda>th. thr_rem m (snd th)" "(fst (threads s ! t), p)"] p
  show ?thesis by (simp add: remaining_def)
qed

lemma remaining_main:
  assumes "basic n m s" and "main_thread n s = Some s'"
  shows "remaining n m s' < remaining n m s"
  using assms(2,1)
proof (cases rule: main_cases)
  case (Spawn i)
  then have "n - i = Suc (n - Suc i)" by simp
  then have "(n - i) * (5 * m + 2) = (n - Suc i) * (5 * m + 2) + (5 * m + 2)"
    by (simp only: mult_Suc add.commute)
  with Spawn show ?thesis by (simp add: remaining_def)
next
  case (Spawned i)
  with assms(1) show ?thesis by (auto simp: remaining_def basic_def main_ok_def)
next
  case (Join j)
  then show ?thesis by (auto simp: remaining_def)
next
  case (Joined j)
  then show ?thesis by (auto simp: remaining_def)
qed

lemma remaining_step:
  "reachable n m s \<Longrightarrow> step n m a s = Some s' \<Longrightarrow> remaining n m s' < remaining n m s"
proof -
  assume r: "reachable n m s" and st: "step n m a s = Some s'"
  from st basic_reachable [OF r] show ?thesis
    by (cases rule: step_cases) (auto intro: remaining_main remaining_worker)
qed

text \<open>
  No deadlock: while the main thread is not past the joins, some thread can move. A
  thread waiting for the lock is not stuck for ever, because the thread inside the block
  can always move.
\<close>

lemma cs_holder:
  assumes "mutex s" and "lock s"
  shows "\<exists>k < length (threads s). in_cs (snd (threads s ! k))"
proof -
  from assms have "filter (\<lambda>th. in_cs (snd th)) (threads s) \<noteq> []"
    by (auto simp: mutex_def cs_count_def)
  then obtain th where "th \<in> set (threads s)" "in_cs (snd th)"
    by (auto simp: filter_empty_conv)
  then show ?thesis by (auto simp: in_set_conv_nth)
qed

lemma in_cs_enabled:
  assumes "k < length (threads s)" and "in_cs (snd (threads s ! k))"
  shows "\<exists>s'. worker m k s = Some s'"
  using assms by (cases "snd (threads s ! k)") (auto simp: worker_def)

lemma progress:
  assumes "reachable n m s" and "main s \<noteq> Main_done"
  shows "\<exists>a s'. step n m a s = Some s'"
proof (cases "main s")
  case (Spawning i)
  then have "\<exists>s'. step n m Main s = Some s'" by (simp add: main_thread_def)
  then show ?thesis by blast
next
  case (Joining j)
  show ?thesis
  proof (cases "j < length (threads s)")
    case False
    with Joining have "\<exists>s'. step n m Main s = Some s'" by (simp add: main_thread_def)
    then show ?thesis by blast
  next
    case True
    show ?thesis
    proof (cases "snd (threads s ! j)")
      case Returned
      with Joining True have "\<exists>s'. step n m Main s = Some s'" by (simp add: main_thread_def)
      then show ?thesis by blast
    next
      case (At_with i)
      show ?thesis
      proof (cases "lock s")
        case False
        with At_with True have "\<exists>s'. step n m (Worker j) s = Some s'" by (simp add: worker_def)
        then show ?thesis by blast
      next
        case lk: True
        from cs_holder [OF mutex_reachable [OF assms(1)] lk] obtain k
          where "k < length (threads s)" "in_cs (snd (threads s ! k))" by blast
        from in_cs_enabled [OF this, of m] have "\<exists>s'. step n m (Worker k) s = Some s'" by simp
        then show ?thesis by blast
      qed
    next
      case (At_for i)
      with True have "\<exists>s'. step n m (Worker j) s = Some s'" by (simp add: worker_def)
      then show ?thesis by blast
    next
      case (At_append i)
      with True have "\<exists>s'. step n m (Worker j) s = Some s'" by (simp add: worker_def)
      then show ?thesis by blast
    next
      case (At_release i)
      with True have "\<exists>s'. step n m (Worker j) s = Some s'" by (simp add: worker_def)
      then show ?thesis by blast
    next
      case (At_sleep i)
      with True have "\<exists>s'. step n m (Worker j) s = Some s'" by (simp add: worker_def)
      then show ?thesis by blast
    qed
  qed
next
  case Main_done
  with assms(2) show ?thesis by simp
qed

text \<open>
  Executions reach reachable states and are bounded; every reachable state can finish.
\<close>

lemma run_None [simp]: "run n m as None = None"
  by (induction as) auto

lemma run_append: "run n m (as @ bs) r = run n m bs (run n m as r)"
  by (induction as arbitrary: r) auto

lemma run_reachable:
  "reachable n m s \<Longrightarrow> run n m sched (Some s) = Some s' \<Longrightarrow> reachable n m s'"
proof (induction sched arbitrary: s)
  case Nil
  then show ?case by simp
next
  case (Cons a sched)
  from Cons.prems(2) obtain s1 where s1: "step n m a s = Some s1" "run n m sched (Some s1) = Some s'"
    by (cases "step n m a s") auto
  from Cons.prems(1) s1(1) have "reachable n m s1" by (rule reach_step)
  from Cons.IH [OF this s1(2)] show ?case .
qed

lemma reachable_run: "reachable n m s \<Longrightarrow> \<exists>sched. run n m sched (Some init) = Some s"
proof (induction rule: reachable.induct)
  case reach_init
  have "run n m [] (Some init) = Some init" by simp
  then show ?case by blast
next
  case (reach_step s a s')
  then obtain sched where "run n m sched (Some init) = Some s" by blast
  with reach_step.hyps(2) have "run n m (sched @ [a]) (Some init) = Some s'"
    by (simp add: run_append)
  then show ?case by blast
qed

lemma run_bounded:
  "reachable n m s \<Longrightarrow> run n m sched (Some s) = Some s' \<Longrightarrow>
     length sched + remaining n m s' \<le> remaining n m s"
proof (induction sched arbitrary: s)
  case Nil
  then show ?case by simp
next
  case (Cons a sched)
  from Cons.prems(2) obtain s1 where s1: "step n m a s = Some s1" "run n m sched (Some s1) = Some s'"
    by (cases "step n m a s") auto
  from Cons.prems(1) s1(1) have r1: "reachable n m s1" by (rule reach_step)
  from Cons.IH [OF r1 s1(2)] remaining_step [OF Cons.prems(1) s1(1)] show ?case by simp
qed

lemma completes:
  "reachable n m s \<Longrightarrow> \<exists>sched s'. run n m sched (Some s) = Some s' \<and> main s' = Main_done"
proof (induction "remaining n m s" arbitrary: s rule: less_induct)
  case less
  show ?case
  proof (cases "main s = Main_done")
    case True
    then have "run n m [] (Some s) = Some s \<and> main s = Main_done" by simp
    then show ?thesis by blast
  next
    case False
    from progress [OF less.prems False] obtain a s1 where st: "step n m a s = Some s1" by blast
    from less.prems st have r1: "reachable n m s1" by (rule reach_step)
    from less.hyps [OF remaining_step [OF less.prems st] r1]
    obtain sched s' where "run n m sched (Some s1) = Some s'" "main s' = Main_done" by blast
    with st have "run n m (a # sched) (Some s) = Some s' \<and> main s' = Main_done" by simp
    then show ?thesis by blast
  qed
qed

lemma remaining_init: "remaining n m init = n * (5 * m + 2) + n + 2"
  by (simp add: remaining_def init_def)

text \<open>
  After the joins.
\<close>

lemma final_threads:
  assumes "reachable n m s" and "main s = Main_done"
  shows "threads s = map (\<lambda>t. (int t, Returned)) [0..<n]"
proof -
  from basic_reachable [OF assms(1)] assms(2)
  have "length (threads s) = n" "\<forall>k < n. snd (threads s ! k) = Returned"
    "\<forall>k < n. fst (threads s ! k) = int k"
    by (auto simp: basic_def main_ok_def threads_ok_def)
  then show ?thesis
    by (auto intro!: nth_equalityI simp: prod_eq_iff)
qed

lemma final_mset:
  assumes "reachable n m s" and "main s = Main_done"
  shows "mset (shared_data s) = mset (expected n m)"
proof -
  have "concat (map (entries_of m) (map (\<lambda>t. (int t, Returned)) [0..<n])) = expected n m"
    by (simp add: expected_def entries_of_def comp_def product_concat_map map_concat)
  with log_ok_reachable [OF assms(1)] final_threads [OF assms] show ?thesis
    by (simp add: log_ok_def)
qed

lemma distinct_expected: "distinct (expected n m)"
  unfolding expected_def
  by (auto simp: distinct_map distinct_product inj_on_def dest: entry_inj)

lemma init_run_reachable: "run n m sched (Some init) = Some s \<Longrightarrow> reachable n m s"
  using run_reachable [OF reach_init] .

text \<open>
  Where an element of a list stands in the filtered list.
\<close>

lemma filter_position:
  assumes "p < length xs" and "P (xs ! p)"
  shows "length (filter P (take p xs)) < length (filter P xs) \<and>
         filter P xs ! length (filter P (take p xs)) = xs ! p"
proof -
  define A where "A = filter P (take p xs)"
  define B where "B = filter P (drop (Suc p) xs)"
  have "filter P xs = filter P (take p xs @ xs ! p # drop (Suc p) xs)"
    by (rule arg_cong [OF id_take_nth_drop [OF assms(1)]])
  also have "\<dots> = A @ xs ! p # B"
    using assms(2) by (simp add: A_def B_def)
  finally have eq: "filter P xs = A @ xs ! p # B" .
  have "length A < length (A @ xs ! p # B) \<and> (A @ xs ! p # B) ! length A = xs ! p"
    by simp
  then have "length A < length (filter P xs) \<and> filter P xs ! length A = xs ! p"
    by (simp only: eq)
  then show ?thesis
    unfolding A_def .
qed

lemma filter_take_mono:
  assumes "p < q" and "q \<le> length xs" and "P (xs ! p)"
  shows "length (filter P (take p xs)) < length (filter P (take q xs))"
proof -
  from assms have "p < length (take q xs)" "P (take q xs ! p)" by simp_all
  from filter_position [of p "take q xs" P, OF this] assms(1) show ?thesis
    by (simp add: min_def)
qed

lemma own_order:
  assumes F: "filter (own (int t)) xs = map (\<lambda>i. entry (int t) (int i)) [0..<k]"
    and pq: "p < q" "q < length xs"
    and xp: "xs ! p = entry (int t) (int i)" and xq: "xs ! q = entry (int t) (int j)"
  shows "i < j"
proof -
  let ?P = "own (int t)"
  let ?a = "length (filter ?P (take p xs))"
  let ?b = "length (filter ?P (take q xs))"
  from pq have p: "p < length xs" by simp
  from xp have Pp: "?P (xs ! p)" by simp
  from xq have Pq: "?P (xs ! q)" by simp
  have len: "length (filter ?P xs) = k" by (simp add: F)
  from filter_position [of p xs ?P, OF p Pp] have "?a < k" "filter ?P xs ! ?a = xs ! p"
    by (simp_all add: len)
  then have "entry (int t) (int ?a) = entry (int t) (int i)"
    by (simp add: F xp)
  then have a: "?a = i" using entry_inj by blast
  from filter_position [of q xs ?P, OF pq(2) Pq] have "?b < k" "filter ?P xs ! ?b = xs ! q"
    by (simp_all add: len)
  then have "entry (int t) (int ?b) = entry (int t) (int j)"
    by (simp add: F xq)
  then have b: "?b = j" using entry_inj by blast
  from filter_take_mono [of p q xs ?P, OF pq(1) _ Pp] pq(2) have "?a < ?b" by simp
  with a b show ?thesis by simp
qed

lemma cs_unique:
  assumes "cs_count s \<le> 1"
    and "t < length (threads s)" "in_cs (snd (threads s ! t))"
    and "t' < length (threads s)" "in_cs (snd (threads s ! t'))"
  shows "t = t'"
proof -
  let ?A = "{i. i < length (threads s) \<and> in_cs (snd (threads s ! i))}"
  have "finite ?A" by simp
  moreover from assms(1) have "card ?A \<le> Suc 0"
    by (simp add: cs_count_def length_filter_conv_card)
  ultimately have "\<forall>a\<in>?A. \<forall>b\<in>?A. a = b"
    by (simp add: card_le_Suc0_iff_eq)
  with assms(2-5) show ?thesis by blast
qed

lemma threads_bound: "reachable n m s \<Longrightarrow> length (threads s) \<le> n"
  by (drule basic_reachable) (auto simp: basic_def main_ok_def split: main_pc.splits)

lemma append_step:
  assumes "reachable n m s" and "step n m a s = Some s'" and "shared_data s' \<noteq> shared_data s"
  shows "\<exists>t i. a = Worker t \<and> t < length (threads s) \<and> i < m \<and> snd (threads s ! t) = At_append i \<and>
           snd (threads s' ! t) = At_release i \<and>
           shared_data s' = shared_data s @ [entry (int t) (int i)] \<and> lock s \<and> lock s'"
  using assms(2)
proof (cases rule: step_cases)
  case Main
  from Main(2) assms(3) show ?thesis
    by (cases rule: main_cases) auto
next
  case (Worker t)
  from Worker(2) assms(3) show ?thesis
  proof (cases rule: worker_cases)
    case (At_append i)
    from basic_reachable [OF assms(1)] At_append(1,2)
    have id: "fst (threads s ! t) = int t" and i: "i < m"
      by (auto simp: basic_def threads_ok_def)
    have "lock s"
    proof -
      have "threads s ! t \<in> set (filter (\<lambda>th. in_cs (snd th)) (threads s))"
        using At_append(1,2) by simp
      then have "filter (\<lambda>th. in_cs (snd th)) (threads s) \<noteq> []"
        by (metis empty_iff empty_set)
      with mutex_reachable [OF assms(1)] show ?thesis
        by (auto simp: mutex_def cs_count_def split: if_splits)
    qed
    with At_append id i Worker(1) show ?thesis by simp
  qed auto
qed

lemma turns_run: "run 3 5 (turns 3 5) (Some init) = Some interleaved_final"
  by (simp add: turns_def eval_nat_numeral init_def main_thread_def worker_def set_pc_def
      interleaved_final_def)

text \<open>
  C2: when the main thread is past both loops (all \<open>n\<close> threads joined), the list has
  exactly \<open>n * m\<close> entries, pairwise distinct, and they are the entries of \<open>n\<close> threads
  doing \<open>m\<close> rounds: none is missing, none is repeated. The program does get there: some
  execution finishes, every execution has at most \<open>n * (5 * m + 2) + n + 2\<close> steps, and
  every execution can be continued to a finished one (no deadlock). The script is the
  instance \<open>n = 3\<close>, \<open>m = 5\<close>, with 15 entries.
\<close>

theorem run_workers_log_length:
  "(\<exists>sched s. run n m sched (Some init) = Some s \<and> main s = Main_done) \<and>
   (\<forall>sched s. run n m sched (Some init) = Some s \<longrightarrow>
      length sched \<le> n * (5 * m + 2) + n + 2 \<and>
      (\<exists>rest s'. run n m (sched @ rest) (Some init) = Some s' \<and> main s' = Main_done) \<and>
      (main s = Main_done \<longrightarrow>
         length (shared_data s) = n * m \<and> distinct (shared_data s) \<and>
         mset (shared_data s) = mset (expected n m)))"
proof (intro conjI allI impI)
  show "\<exists>sched s. run n m sched (Some init) = Some s \<and> main s = Main_done"
    using completes [OF reach_init] .
next
  fix sched s
  assume r: "run n m sched (Some init) = Some s"
  from run_bounded [OF reach_init r] show "length sched \<le> n * (5 * m + 2) + n + 2"
    by (simp add: remaining_init)
  from completes [OF init_run_reachable [OF r]] obtain rest s'
    where "run n m rest (Some s) = Some s'" "main s' = Main_done" by blast
  with r have "run n m (sched @ rest) (Some init) = Some s' \<and> main s' = Main_done"
    by (simp add: run_append)
  then show "\<exists>rest s'. run n m (sched @ rest) (Some init) = Some s' \<and> main s' = Main_done"
    by blast
  assume d: "main s = Main_done"
  from final_mset [OF init_run_reachable [OF r] d]
  show ms: "mset (shared_data s) = mset (expected n m)" .
  then have "length (shared_data s) = length (expected n m)"
    by (rule mset_eq_length)
  then show "length (shared_data s) = n * m"
    by (simp add: expected_def)
  from ms distinct_expected [of n m] show "distinct (shared_data s)"
    by (metis distinct_count_atmost_1 set_mset_mset)
qed

text \<open>
  The script's instance, on the execution in which the three threads take turns: it
  finishes after 86 steps with 15 distinct entries.
\<close>

theorem run_workers_log_length_witness:
  "run thread_count tasks_per_thread (turns 3 5) (Some init) = Some interleaved_final \<and>
   main interleaved_final = Main_done \<and>
   length (turns 3 5) \<le> 86 \<and>
   length (shared_data interleaved_final) = 15 \<and>
   distinct (shared_data interleaved_final) \<and>
   mset (shared_data interleaved_final) = mset (expected 3 5)"
proof -
  have d: "main interleaved_final = Main_done"
    by (simp add: interleaved_final_def)
  from run_workers_log_length [of 3 5] turns_run d
  have "length (turns 3 5) \<le> 3 * (5 * 5 + 2) + 3 + 2 \<and>
        length (shared_data interleaved_final) = 3 * 5 \<and> distinct (shared_data interleaved_final) \<and>
        mset (shared_data interleaved_final) = mset (expected 3 5)"
    by blast
  with turns_run d show ?thesis
    by (simp add: thread_count_def tasks_per_thread_def)
qed

lemma first_append_run:
  "run 3 5 [Main, Worker 0, Worker 0, Worker 0] (Some init) = Some first_append"
  by (simp add: init_def main_thread_def worker_def set_pc_def first_append_def entry_def
      py_str_def digits.simps)

text \<open>
  C3 says that an entry reads \<^verbatim>\<open>worker{id}-step{i}\<close>. The literal parts of the f-string at
  line 81 are the Chinese words for thread and task: the first entry that thread 0 appends
  is not the string \<^verbatim>\<open>worker0-step0\<close>.
\<close>

theorem entry_label_counterexample:
  "run thread_count tasks_per_thread [Main, Worker 0, Worker 0, Worker 0] (Some init) =
     Some first_append \<and>
   shared_data first_append = [entry 0 0] \<and>
   entry 0 0 \<noteq> codepoints ''worker0-step0''"
  using first_append_run
  by (simp add: thread_count_def tasks_per_thread_def first_append_def entry_def py_str_def
      digits.simps codepoints_def)

text \<open>
  C3, as the code has it: every entry of the list is the f-string of line 81 for a thread
  \<open>t < n\<close> and a round \<open>i < m\<close>, that is the two characters U+7EBF U+7A0B, the decimal
  \<open>t\<close>, a hyphen, the two characters U+4EFB U+52A1, and the decimal \<open>i\<close>; and a step that
  changes the list appends exactly the entry of the thread that moves and of its current
  round. For the script, \<open>t\<close> is one of 0, 1, 2 and \<open>i\<close> one of 0, ..., 4.
\<close>

theorem log_entries_formatted:
  assumes "run n m sched (Some init) = Some s"
  shows "(\<forall>e \<in> set (shared_data s). \<exists>t<n. \<exists>i<m.
            e = [32447, 31243] @ py_str (int t) @ [45, 20219, 21153] @ py_str (int i)) \<and>
         (\<forall>a s'. step n m a s = Some s' \<longrightarrow>
            shared_data s' = shared_data s \<or>
            (\<exists>t<n. \<exists>i<m. a = Worker t \<and> snd (threads s ! t) = At_append i \<and>
               shared_data s' = shared_data s @
                 [[32447, 31243] @ py_str (int t) @ [45, 20219, 21153] @ py_str (int i)]))"
proof (intro conjI ballI allI impI)
  note r = init_run_reachable [OF assms]
  fix e
  assume "e \<in> set (shared_data s)"
  from entry_origin [OF r this] obtain t i
    where ti: "t < length (threads s)" "i < m" "e = entry (int t) (int i)" by blast
  from ti(1) threads_bound [OF r] have "t < n" by simp
  with ti(2,3) show "\<exists>t<n. \<exists>i<m.
      e = [32447, 31243] @ py_str (int t) @ [45, 20219, 21153] @ py_str (int i)"
    unfolding entry_def by blast
next
  note r = init_run_reachable [OF assms]
  fix a s'
  assume st: "step n m a s = Some s'"
  show "shared_data s' = shared_data s \<or>
        (\<exists>t<n. \<exists>i<m. a = Worker t \<and> snd (threads s ! t) = At_append i \<and>
           shared_data s' = shared_data s @
             [[32447, 31243] @ py_str (int t) @ [45, 20219, 21153] @ py_str (int i)])"
  proof (cases "shared_data s' = shared_data s")
    case True
    then show ?thesis by simp
  next
    case False
    from append_step [OF r st False] obtain t i
      where ti: "a = Worker t" "t < length (threads s)" "i < m" "snd (threads s ! t) = At_append i"
        "shared_data s' = shared_data s @ [entry (int t) (int i)]" by blast
    from ti(2) threads_bound [OF r] have "t < n" by simp
    with ti show ?thesis unfolding entry_def by blast
  qed
qed

lemma before_first_append_run:
  "run 3 5 [Main, Worker 0, Worker 0] (Some init) = Some before_first_append"
  by (simp add: init_def main_thread_def worker_def set_pc_def before_first_append_def)

lemma before_first_append_step:
  "step 3 5 (Worker 0) before_first_append = Some first_append"
  by (simp add: worker_def set_pc_def before_first_append_def first_append_def entry_def
      py_str_def digits.simps)

text \<open>
  The first entry of thread 0 in the script's instance.
\<close>

theorem log_entries_formatted_witness:
  "run thread_count tasks_per_thread [Main, Worker 0, Worker 0, Worker 0] (Some init) =
     Some first_append \<and>
   [32447, 31243, 48, 45, 20219, 21153, 48] \<in> set (shared_data first_append) \<and>
   (\<exists>t<3. \<exists>i<5. [32447, 31243, 48, 45, 20219, 21153, 48] =
      [32447, 31243] @ py_str (int t) @ [45, 20219, 21153] @ py_str (int i)) \<and>
   run thread_count tasks_per_thread [Main, Worker 0, Worker 0] (Some init) =
     Some before_first_append \<and>
   step 3 5 (Worker 0) before_first_append = Some first_append \<and>
   shared_data first_append =
     shared_data before_first_append @ [[32447, 31243] @ py_str 0 @ [45, 20219, 21153] @ py_str 0]"
proof -
  have mem: "[32447, 31243, 48, 45, 20219, 21153, 48] \<in> set (shared_data first_append)"
    by (simp add: first_append_def)
  from log_entries_formatted [OF first_append_run] mem
  have fmt: "\<exists>t<3. \<exists>i<5. [32447, 31243, 48, 45, 20219, 21153, 48] =
      [32447, 31243] @ py_str (int t) @ [45, 20219, 21153] @ py_str (int i)"
    by blast
  have changed: "shared_data first_append \<noteq> shared_data before_first_append"
    by (simp add: first_append_def before_first_append_def)
  from log_entries_formatted [OF before_first_append_run] before_first_append_step changed
  obtain t i where ti: "Worker 0 = Worker t" "snd (threads before_first_append ! t) = At_append i"
    "shared_data first_append = shared_data before_first_append @
       [[32447, 31243] @ py_str (int t) @ [45, 20219, 21153] @ py_str (int i)]"
    by blast
  from ti(1) have t: "t = 0" by simp
  with ti(2) have i: "i = 0" by (simp add: before_first_append_def)
  from ti(3) t i have app: "shared_data first_append =
      shared_data before_first_append @ [[32447, 31243] @ py_str 0 @ [45, 20219, 21153] @ py_str 0]"
    by simp
  from first_append_run before_first_append_run before_first_append_step mem fmt app
  show ?thesis
    by (simp only: thread_count_def tasks_per_thread_def simp_thms)
qed

text \<open>
  C6: in every reachable state, the entries of thread \<open>t\<close> are, in the order in which they
  stand in the list, its entries for rounds \<open>0, 1, ...\<close> up to the number it has appended;
  so of two entries of \<open>t\<close> the earlier one has the smaller round number. After the joins
  they are its entries for rounds \<open>0, ..., m - 1\<close>. Nothing is said about the order across
  threads.
\<close>

theorem worker_entries_in_step_order:
  assumes "run n m sched (Some init) = Some s" and "t < length (threads s)"
  shows "filter (own (int t)) (shared_data s) =
           map (\<lambda>i. entry (int t) (int i)) [0..<appended m (snd (threads s ! t))] \<and>
         (\<forall>p q i j. p < q \<and> q < length (shared_data s) \<and>
            shared_data s ! p = entry (int t) (int i) \<and>
            shared_data s ! q = entry (int t) (int j) \<longrightarrow> i < j) \<and>
         (main s = Main_done \<longrightarrow>
            filter (own (int t)) (shared_data s) = map (\<lambda>i. entry (int t) (int i)) [0..<m])"
proof -
  note r = init_run_reachable [OF assms(1)]
  from order_ok_reachable [OF r] assms(2)
  have F: "filter (own (int t)) (shared_data s) =
      map (\<lambda>i. entry (int t) (int i)) [0..<appended m (snd (threads s ! t))]"
    using basic_reachable [OF r]
    by (simp add: order_ok_def entries_of_def basic_def threads_ok_def)
  have ord: "i < j" if "p < q \<and> q < length (shared_data s) \<and>
      shared_data s ! p = entry (int t) (int i) \<and> shared_data s ! q = entry (int t) (int j)"
    for p q i j
    using own_order [OF F, of p q i j] that by blast
  have fin: "filter (own (int t)) (shared_data s) = map (\<lambda>i. entry (int t) (int i)) [0..<m]"
    if "main s = Main_done"
  proof -
    from basic_reachable [OF r] that assms(2) have "snd (threads s ! t) = Returned"
      by (simp add: basic_def main_ok_def)
    with F show ?thesis by simp
  qed
  from F ord fin show ?thesis by blast
qed

text \<open>
  Thread 1 in the execution in which the threads take turns: its five entries stand at
  positions 1, 4, 7, 10 and 13, in the order of its rounds.
\<close>

theorem worker_entries_in_step_order_witness:
  "run thread_count tasks_per_thread (turns 3 5) (Some init) = Some interleaved_final \<and>
   (1::nat) < length (threads interleaved_final) \<and>
   main interleaved_final = Main_done \<and>
   filter (own 1) (shared_data interleaved_final) =
     [entry 1 0, entry 1 1, entry 1 2, entry 1 3, entry 1 4] \<and>
   shared_data interleaved_final ! 1 = entry 1 0 \<and>
   shared_data interleaved_final ! 13 = entry 1 4 \<and>
   (0::nat) < 4"
proof -
  have len: "(1::nat) < length (threads interleaved_final)"
    and d: "main interleaved_final = Main_done"
    and p: "shared_data interleaved_final ! 1 = entry (int 1) (int 0)"
    and q: "shared_data interleaved_final ! 13 = entry (int 1) (int 4)"
    and l: "(13::nat) < length (shared_data interleaved_final)"
    by (simp_all add: interleaved_final_def)
  from worker_entries_in_step_order [OF turns_run len] d
  have F: "filter (own (int 1)) (shared_data interleaved_final) =
      map (\<lambda>i. entry (int 1) (int i)) [0..<5]"
    by blast
  from worker_entries_in_step_order [OF turns_run len]
  have ord: "p < q \<and> q < length (shared_data interleaved_final) \<and>
      shared_data interleaved_final ! p = entry (int 1) (int i) \<and>
      shared_data interleaved_final ! q = entry (int 1) (int j) \<Longrightarrow> i < j" for p q i j
    by blast
  have "(0::nat) < 4"
    by (rule ord [of 1 13 0 4]) (simp add: interleaved_final_def)
  with F turns_run len d p q show ?thesis
    by (simp add: thread_count_def tasks_per_thread_def eval_nat_numeral)
qed

text \<open>
  The steps that take and release the lock.
\<close>

lemma lock_change_step:
  assumes "step n m a s = Some s'" and "lock s' \<noteq> lock s"
  shows "\<exists>t i. a = Worker t \<and> t < length (threads s) \<and> shared_data s' = shared_data s \<and>
           (\<not> lock s \<and> lock s' \<and> snd (threads s ! t) = At_with i \<and> snd (threads s' ! t) = At_append i \<or>
            \<not> lock s' \<and> snd (threads s ! t) = At_release i \<and> snd (threads s' ! t) = At_sleep i)"
  using assms(1)
proof (cases rule: step_cases)
  case Main
  from Main(2) assms(2) show ?thesis
    by (cases rule: main_cases) auto
next
  case (Worker t)
  from Worker(2) assms(2) Worker(1) show ?thesis
    by (cases rule: worker_cases) auto
qed

lemma holder_steps:
  assumes "t < length (threads s)"
  shows "snd (threads s ! t) = At_append i \<Longrightarrow>
           \<exists>s'. step n m (Worker t) s = Some s' \<and> lock s' = lock s \<and>
             shared_data s' = shared_data s @ [entry (fst (threads s ! t)) (int i)] \<and>
             snd (threads s' ! t) = At_release i"
    and "snd (threads s ! t) = At_release i \<Longrightarrow>
           \<exists>s'. step n m (Worker t) s = Some s' \<and> \<not> lock s' \<and>
             shared_data s' = shared_data s \<and> snd (threads s' ! t) = At_sleep i"
  using assms by (simp_all add: worker_def)

text \<open>
  C7: in every reachable state at most one thread is inside the \<^verbatim>\<open>with lock\<close> block, and
  the lock is held exactly when one is. A step that changes the list is the append of a
  thread inside the block, with the lock held before and after. The lock is taken only
  by a thread entering the block, which then stands before its append; a thread before
  its append can always move, and appends one entry; a thread after its append can
  always move, and releases the lock without touching the list; and only such a thread
  releases the lock. So the lock is held for one append at a time.
\<close>

theorem append_mutual_exclusion:
  assumes "run n m sched (Some init) = Some s"
  shows "cs_count s \<le> 1 \<and>
         (lock s \<longleftrightarrow> cs_count s = 1) \<and>
         (\<forall>t t'. t < length (threads s) \<and> t' < length (threads s) \<and>
            in_cs (snd (threads s ! t)) \<and> in_cs (snd (threads s ! t')) \<longrightarrow> t = t') \<and>
         (\<forall>a s'. step n m a s = Some s' \<and> shared_data s' \<noteq> shared_data s \<longrightarrow>
            lock s \<and> lock s' \<and>
            (\<exists>t i. a = Worker t \<and> snd (threads s ! t) = At_append i \<and>
               snd (threads s' ! t) = At_release i \<and>
               shared_data s' = shared_data s @ [entry (int t) (int i)])) \<and>
         (\<forall>a s'. step n m a s = Some s' \<and> \<not> lock s \<and> lock s' \<longrightarrow>
            (\<exists>t i. a = Worker t \<and> snd (threads s ! t) = At_with i \<and>
               snd (threads s' ! t) = At_append i \<and> shared_data s' = shared_data s)) \<and>
         (\<forall>t i. t < length (threads s) \<and> snd (threads s ! t) = At_append i \<longrightarrow>
            (\<exists>s'. step n m (Worker t) s = Some s' \<and> lock s' \<and>
               shared_data s' = shared_data s @ [entry (int t) (int i)] \<and>
               snd (threads s' ! t) = At_release i)) \<and>
         (\<forall>t i. t < length (threads s) \<and> snd (threads s ! t) = At_release i \<longrightarrow>
            (\<exists>s'. step n m (Worker t) s = Some s' \<and> \<not> lock s' \<and>
               shared_data s' = shared_data s \<and> snd (threads s' ! t) = At_sleep i)) \<and>
         (\<forall>a s'. step n m a s = Some s' \<and> lock s \<and> \<not> lock s' \<longrightarrow>
            (\<exists>t i. a = Worker t \<and> snd (threads s ! t) = At_release i))"
proof -
  note r = init_run_reachable [OF assms]
  note mx = mutex_reachable [OF r]
  from mx have c1: "cs_count s \<le> 1" and c2: "lock s \<longleftrightarrow> cs_count s = 1"
    by (auto simp: mutex_def split: if_splits)
  have c3: "t = t'" if "t < length (threads s) \<and> t' < length (threads s) \<and>
      in_cs (snd (threads s ! t)) \<and> in_cs (snd (threads s ! t'))" for t t'
    using cs_unique [OF c1, of t t'] that by blast
  have c4: "lock s \<and> lock s' \<and>
      (\<exists>t i. a = Worker t \<and> snd (threads s ! t) = At_append i \<and>
         snd (threads s' ! t) = At_release i \<and>
         shared_data s' = shared_data s @ [entry (int t) (int i)])"
    if "step n m a s = Some s' \<and> shared_data s' \<noteq> shared_data s" for a s'
    using append_step [OF r, of a s'] that by blast
  have c5: "\<exists>t i. a = Worker t \<and> snd (threads s ! t) = At_with i \<and>
      snd (threads s' ! t) = At_append i \<and> shared_data s' = shared_data s"
    if "step n m a s = Some s' \<and> \<not> lock s \<and> lock s'" for a s'
    using lock_change_step [of n m a s s'] that by blast
  have c6: "\<exists>s'. step n m (Worker t) s = Some s' \<and> lock s' \<and>
      shared_data s' = shared_data s @ [entry (int t) (int i)] \<and> snd (threads s' ! t) = At_release i"
    if h: "t < length (threads s) \<and> snd (threads s ! t) = At_append i" for t i
  proof -
    from h holder_steps(1) [of t s i n m] obtain s' where s': "step n m (Worker t) s = Some s'"
      "lock s' = lock s" "shared_data s' = shared_data s @ [entry (fst (threads s ! t)) (int i)]"
      "snd (threads s' ! t) = At_release i" by blast
    from basic_reachable [OF r] h have id: "fst (threads s ! t) = int t"
      by (simp add: basic_def threads_ok_def)
    from s'(1,3) have "shared_data s' \<noteq> shared_data s" by simp
    with c4 [of "Worker t" s'] s'(1) have "lock s'" by blast
    with s' id show ?thesis by simp
  qed
  have c7: "\<exists>s'. step n m (Worker t) s = Some s' \<and> \<not> lock s' \<and>
      shared_data s' = shared_data s \<and> snd (threads s' ! t) = At_sleep i"
    if "t < length (threads s) \<and> snd (threads s ! t) = At_release i" for t i
    using holder_steps(2) [of t s i n m] that by blast
  have c8: "\<exists>t i. a = Worker t \<and> snd (threads s ! t) = At_release i"
    if "step n m a s = Some s' \<and> lock s \<and> \<not> lock s'" for a s'
    using lock_change_step [of n m a s s'] that by blast
  from c1 c2 c3 c4 c5 c6 c7 c8 show ?thesis by blast
qed

lemma contended_run:
  "run 3 5 [Main, Main, Worker 0, Worker 1, Worker 0] (Some init) = Some contended"
  by (simp add: init_def main_thread_def worker_def set_pc_def contended_def)

lemma waiting_run:
  "run 3 5 [Main, Main, Worker 0, Worker 1] (Some init) = Some waiting"
  by (simp add: init_def main_thread_def worker_def set_pc_def waiting_def)

lemma after_append_run:
  "run 3 5 [Main, Main, Worker 0, Worker 1, Worker 0, Worker 0] (Some init) = Some after_append"
  by (simp add: init_def main_thread_def worker_def set_pc_def after_append_def)

text \<open>
  Thread 0 holds the lock and thread 1 waits for it: thread 1 cannot move, thread 0
  appends its first entry.
\<close>

theorem append_mutual_exclusion_witness:
  "run thread_count tasks_per_thread [Main, Main, Worker 0, Worker 1, Worker 0] (Some init) =
     Some contended \<and>
   lock contended \<and>
   cs_count contended = 1 \<and>
   step 3 5 (Worker 1) contended = None \<and>
   (\<exists>s'. step 3 5 (Worker 0) contended = Some s' \<and> lock s' \<and>
      shared_data s' = shared_data contended @ [entry 0 0] \<and>
      snd (threads s' ! 0) = At_release 0) \<and>
   run thread_count tasks_per_thread [Main, Main, Worker 0, Worker 1] (Some init) = Some waiting \<and>
   step 3 5 (Worker 0) waiting = Some contended \<and>
   \<not> lock waiting \<and>
   snd (threads waiting ! 0) = At_with 0 \<and>
   snd (threads contended ! 0) = At_append 0 \<and>
   run thread_count tasks_per_thread [Main, Main, Worker 0, Worker 1, Worker 0, Worker 0]
     (Some init) = Some after_append \<and>
   (\<exists>s'. step 3 5 (Worker 0) after_append = Some s' \<and> \<not> lock s' \<and>
      shared_data s' = shared_data after_append \<and> snd (threads s' ! 0) = At_sleep 0)"
proof -
  have lk: "lock contended"
    and pc: "0 < length (threads contended) \<and> snd (threads contended ! 0) = At_append 0"
    and blocked: "step 3 5 (Worker 1) contended = None"
    by (simp_all add: contended_def worker_def)
  from append_mutual_exclusion [OF contended_run] lk
  have one: "cs_count contended = 1"
    by blast
  from append_mutual_exclusion [OF contended_run] pc
  have app: "\<exists>s'. step 3 5 (Worker 0) contended = Some s' \<and> lock s' \<and>
      shared_data s' = shared_data contended @ [entry (int 0) (int 0)] \<and>
      snd (threads s' ! 0) = At_release 0"
    by blast
  have acq: "step 3 5 (Worker 0) waiting = Some contended \<and> \<not> lock waiting \<and> lock contended"
    by (simp add: waiting_def contended_def worker_def set_pc_def)
  with append_mutual_exclusion [OF waiting_run]
  obtain t i where ti: "Worker 0 = Worker t" "snd (threads waiting ! t) = At_with i"
    "snd (threads contended ! t) = At_append i"
    by blast
  from ti(1) have t: "t = 0" by simp
  with ti(3) have i: "i = 0" by (simp add: contended_def)
  have rel: "0 < length (threads after_append) \<and> snd (threads after_append ! 0) = At_release 0"
    by (simp add: after_append_def)
  with append_mutual_exclusion [OF after_append_run]
  have out: "\<exists>s'. step 3 5 (Worker 0) after_append = Some s' \<and> \<not> lock s' \<and>
      shared_data s' = shared_data after_append \<and> snd (threads s' ! 0) = At_sleep 0"
    by blast
  from contended_run waiting_run after_append_run lk one blocked app acq ti(2,3) t i out
  show ?thesis
    by (simp add: thread_count_def tasks_per_thread_def)
qed


subsection \<open>Sequential calls and the thread pool\<close>

text \<open>
  The sequential loop maps the function over the arguments.
\<close>

lemma run_sequential_map: "run_sequential task args = map task args"
proof -
  have "foldl (\<lambda>results a. results @ [task a]) acc args = acc @ map task args" for acc
    by (induction args arbitrary: acc) simp_all
  then show ?thesis by (simp add: run_sequential_def)
qed

text \<open>
  Case rules: what a step of the calling thread, of a pool thread and of the program can
  be.
\<close>

lemma caller_cases [consumes 1, case_names Submit Submitted Collect Collected Shut]:
  assumes "caller_step args s = Some s'"
  obtains
    k where "caller s = Submitting k" "k < length args"
      "s' = s\<lparr>work_queue := work_queue s @ [(length (futures s), args ! k)],
               futures := futures s @ [None], caller := Submitting (Suc k)\<rparr>"
  | k where "caller s = Submitting k" "\<not> k < length args" "s' = s\<lparr>caller := Collecting 0\<rparr>"
  | k r where "caller s = Collecting k" "k < length (futures s)" "futures s ! k = Some r"
      "s' = s\<lparr>results := results s @ [r], caller := Collecting (Suc k)\<rparr>"
  | k where "caller s = Collecting k" "\<not> k < length (futures s)" "s' = s\<lparr>caller := Shutdown\<rparr>"
  | "caller s = Shutdown" "work_queue s = []" "list_all (\<lambda>w. w = None) (pool_workers s)"
      "s' = s\<lparr>caller := Exited\<rparr>"
  using assms unfolding caller_step_def
  by (auto split: if_splits pool_pc.splits option.splits)

lemma pool_worker_cases [consumes 1, case_names Take Finish]:
  assumes "pool_worker_step task w s = Some s'"
  obtains
    item queue where "w < length (pool_workers s)" "pool_workers s ! w = None"
      "work_queue s = item # queue"
      "s' = s\<lparr>work_queue := queue, pool_workers := (pool_workers s)[w := Some item]\<rparr>"
  | k a where "w < length (pool_workers s)" "pool_workers s ! w = Some (k, a)"
      "s' = s\<lparr>futures := (futures s)[k := Some (task a)],
               pool_workers := (pool_workers s)[w := None]\<rparr>"
  using assms unfolding pool_worker_step_def
  by (auto split: if_splits option.splits list.splits)

lemma pool_step_cases [consumes 1, case_names Caller Pool_worker]:
  assumes "pool_step task args x s = Some s'"
  obtains "x = Caller" "caller_step args s = Some s'"
  | w where "x = Pool_worker w" "pool_worker_step task w s = Some s'"
  using assms by (cases x) auto

text \<open>
  The running calls and the unfinished futures when a call is taken or finished.
\<close>

lemma busy_take:
  "w < length ws \<Longrightarrow> ws ! w = None \<Longrightarrow> mset (busy (ws[w := Some x])) = add_mset x (mset (busy ws))"
proof (induction ws arbitrary: w rule: busy.induct)
  case 1
  then show ?case by simp
next
  case (2 ws)
  then show ?case by (cases w) auto
next
  case (3 y ws)
  then show ?case by (cases w) auto
qed

lemma busy_finish:
  "w < length ws \<Longrightarrow> ws ! w = Some x \<Longrightarrow> add_mset x (mset (busy (ws[w := None]))) = mset (busy ws)"
proof (induction ws arbitrary: w rule: busy.induct)
  case 1
  then show ?case by simp
next
  case (2 ws)
  then show ?case by (cases w) auto
next
  case (3 y ws)
  then show ?case by (cases w) auto
qed

lemma busy_member: "w < length ws \<Longrightarrow> ws ! w = Some x \<Longrightarrow> x \<in> set (busy ws)"
  using busy_finish [of w ws x] by (metis mset_add set_mset_mset union_single_eq_member)

lemma busy_Nil_iff: "busy ws = [] \<longleftrightarrow> list_all (\<lambda>w. w = None) ws"
  by (induction ws rule: busy.induct) auto

lemma busy_ex: "busy ws \<noteq> [] \<Longrightarrow> \<exists>w x. w < length ws \<and> ws ! w = Some x"
proof (induction ws rule: busy.induct)
  case 1
  then show ?case by simp
next
  case (2 ws)
  then obtain w x where "w < length ws" "ws ! w = Some x" by auto
  then have "Suc w < length (None # ws) \<and> (None # ws) ! Suc w = Some x" by simp
  then show ?case by blast
next
  case (3 y ws)
  have "0 < length (Some y # ws) \<and> (Some y # ws) ! 0 = Some y" by simp
  then show ?case by blast
qed

lemma pending_snoc: "pending (fs @ [None]) = pending fs @ [length fs]"
proof -
  have "filter (\<lambda>j. (fs @ [None]) ! j = None) [0..<length fs] = filter (\<lambda>j. fs ! j = None) [0..<length fs]"
    by (rule filter_cong) (auto simp: nth_append)
  then show ?thesis by (simp add: pending_def)
qed

lemma filter_remove_one:
  "distinct xs \<Longrightarrow> k \<in> set xs \<Longrightarrow> Q k \<Longrightarrow>
     add_mset k (mset (filter (\<lambda>j. j \<noteq> k \<and> Q j) xs)) = mset (filter Q xs)"
proof (induction xs)
  case Nil
  then show ?case by simp
next
  case (Cons x xs)
  show ?case
  proof (cases "x = k")
    case True
    with Cons.prems have "k \<notin> set xs" by simp
    then have "filter (\<lambda>j. j \<noteq> k \<and> Q j) xs = filter Q xs"
      by (intro filter_cong) auto
    with True Cons.prems show ?thesis by simp
  next
    case False
    with Cons show ?thesis by auto
  qed
qed

lemma pending_done:
  assumes "k < length fs" and "fs ! k = None"
  shows "add_mset k (mset (pending (fs[k := Some r]))) = mset (pending fs)"
proof -
  have "filter (\<lambda>j. fs[k := Some r] ! j = None) [0..<length fs] =
        filter (\<lambda>j. j \<noteq> k \<and> fs ! j = None) [0..<length fs]"
    using assms(1) by (intro filter_cong) (auto simp: nth_list_update split: if_splits)
  with filter_remove_one [of "[0..<length fs]" k "\<lambda>j. fs ! j = None"] assms
  show ?thesis by (simp add: pending_def)
qed

lemma pending_member: "k \<in> set (pending fs) \<longleftrightarrow> k < length fs \<and> fs ! k = None"
  by (auto simp: pending_def)

lemma busy_take_set:
  "w < length ws \<Longrightarrow> ws ! w = None \<Longrightarrow> set (busy (ws[w := Some x])) = insert x (set (busy ws))"
  using busy_take [of w ws x] by (metis set_mset_add_mset_insert set_mset_mset)

lemma busy_finish_set:
  "w < length ws \<Longrightarrow> ws ! w = Some x \<Longrightarrow> set (busy (ws[w := None])) \<subseteq> set (busy ws)"
  using busy_finish [of w ws x] by (metis set_mset_add_mset_insert set_mset_mset subset_insertI)

lemma busy_take_length:
  "w < length ws \<Longrightarrow> ws ! w = None \<Longrightarrow> length (busy (ws[w := Some x])) = Suc (length (busy ws))"
  using busy_take [of w ws x] by (metis size_add_mset size_mset)

lemma busy_finish_length:
  "w < length ws \<Longrightarrow> ws ! w = Some x \<Longrightarrow> Suc (length (busy (ws[w := None]))) = length (busy ws)"
  using busy_finish [of w ws x] by (metis size_add_mset size_mset)

text \<open>
  The invariant of the pool is kept by every step.
\<close>

lemma items_okI:
  assumes "\<And>k a. (k, a) \<in> set (work_queue s) \<Longrightarrow> k < length (futures s) \<and> a = args ! k"
    and "\<And>k a. (k, a) \<in> set (busy (pool_workers s)) \<Longrightarrow> k < length (futures s) \<and> a = args ! k"
  shows "items_ok args s"
  unfolding items_ok_def using assms by auto

lemma items_okD:
  assumes "items_ok args s"
    and "(k, a) \<in> set (work_queue s) \<or> (k, a) \<in> set (busy (pool_workers s))"
  shows "k < length (futures s) \<and> a = args ! k"
proof -
  from assms(2) have "(k, a) \<in> set (work_queue s) \<union> set (busy (pool_workers s))" by simp
  with assms(1) have "fst (k, a) < length (futures s) \<and> snd (k, a) = args ! fst (k, a)"
    unfolding items_ok_def by (rule bspec)
  then show ?thesis by simp
qed

lemma pool_inv_caller:
  assumes inv: "pool_inv task args mw s" and st: "caller_step args s = Some s'"
  shows "pool_inv task args mw s'"
proof -
  from inv have co: "caller_ok task args s" and fo: "futures_ok task args s"
    and io: "items_ok args s" and po: "pending_ok s"
    and mw: "0 < mw \<and> length (pool_workers s) = nat mw"
    by (simp_all add: pool_inv_def)
  from st show ?thesis
  proof (cases rule: caller_cases)
    case (Submit k)
    from co Submit(1) have k: "length (futures s) = k" "results s = []"
      by (simp_all add: caller_ok_def)
    from k Submit have "caller_ok task args s'"
      by (simp add: caller_ok_def)
    moreover from fo k Submit have "futures_ok task args s'"
      by (auto simp: futures_ok_def nth_append less_Suc_eq)
    moreover have "items_ok args s'"
    proof (rule items_okI)
      fix j a
      assume "(j, a) \<in> set (work_queue s')"
      with Submit(3) have "(j, a) \<in> set (work_queue s) \<or> (j, a) = (length (futures s), args ! k)"
        by auto
      with items_okD [OF io, of j a] k Submit(3)
      show "j < length (futures s') \<and> a = args ! j" by auto
    next
      fix j a
      assume "(j, a) \<in> set (busy (pool_workers s'))"
      with Submit(3) have "(j, a) \<in> set (busy (pool_workers s))" by simp
      with items_okD [OF io, of j a] Submit(3)
      show "j < length (futures s') \<and> a = args ! j" by auto
    qed
    moreover from po Submit(3) have "pending_ok s'"
      by (simp add: pending_ok_def pending_snoc)
    moreover from mw Submit(3) have "0 < mw \<and> length (pool_workers s') = nat mw" by simp
    ultimately show ?thesis by (simp add: pool_inv_def)
  next
    case (Submitted k)
    from co Submitted have "caller_ok task args s'"
      by (simp add: caller_ok_def)
    moreover from fo io po mw Submitted(3)
    have "futures_ok task args s'" "items_ok args s'" "pending_ok s'"
      "0 < mw \<and> length (pool_workers s') = nat mw"
      by (simp_all add: futures_ok_def items_ok_def pending_ok_def)
    ultimately show ?thesis by (simp add: pool_inv_def)
  next
    case (Collect k r)
    from co Collect(1) have k: "k \<le> length args" "length (futures s) = length args"
      "results s = map task (take k args)" "\<forall>j < k. futures s ! j \<noteq> None"
      by (simp_all add: caller_ok_def)
    from fo Collect(2,3) have r: "r = task (args ! k)"
      by (auto simp: futures_ok_def)
    from Collect(2) k(2) have "take (Suc k) args = take k args @ [args ! k]"
      by (simp add: take_Suc_conv_app_nth)
    with k r Collect have "caller_ok task args s'"
      by (auto simp: caller_ok_def less_Suc_eq)
    moreover from fo io po mw Collect(4)
    have "futures_ok task args s'" "items_ok args s'" "pending_ok s'"
      "0 < mw \<and> length (pool_workers s') = nat mw"
      by (simp_all add: futures_ok_def items_ok_def pending_ok_def)
    ultimately show ?thesis by (simp add: pool_inv_def)
  next
    case (Collected k)
    from co Collected have "caller_ok task args s'"
      by (auto simp: caller_ok_def)
    moreover from fo io po mw Collected(3)
    have "futures_ok task args s'" "items_ok args s'" "pending_ok s'"
      "0 < mw \<and> length (pool_workers s') = nat mw"
      by (simp_all add: futures_ok_def items_ok_def pending_ok_def)
    ultimately show ?thesis by (simp add: pool_inv_def)
  next
    case Shut
    from co Shut have "caller_ok task args s'"
      by (simp add: caller_ok_def)
    moreover from fo io po mw Shut(4)
    have "futures_ok task args s'" "items_ok args s'" "pending_ok s'"
      "0 < mw \<and> length (pool_workers s') = nat mw"
      by (simp_all add: futures_ok_def items_ok_def pending_ok_def)
    ultimately show ?thesis by (simp add: pool_inv_def)
  qed
qed

lemma pool_inv_worker:
  assumes inv: "pool_inv task args mw s" and st: "pool_worker_step task w s = Some s'"
  shows "pool_inv task args mw s'"
proof -
  from inv have co: "caller_ok task args s" and fo: "futures_ok task args s"
    and io: "items_ok args s" and po: "pending_ok s"
    and mw: "0 < mw \<and> length (pool_workers s) = nat mw"
    by (simp_all add: pool_inv_def)
  from st show ?thesis
  proof (cases rule: pool_worker_cases)
    case (Take item queue)
    from co fo mw Take(4) have "caller_ok task args s'" "futures_ok task args s'"
      "0 < mw \<and> length (pool_workers s') = nat mw"
      by (auto simp: caller_ok_def futures_ok_def split: pool_pc.splits)
    moreover have "items_ok args s'"
    proof (rule items_okI)
      fix j a
      assume "(j, a) \<in> set (work_queue s')"
      with Take(3,4) have "(j, a) \<in> set (work_queue s)" by simp
      with items_okD [OF io, of j a] Take(4)
      show "j < length (futures s') \<and> a = args ! j" by simp
    next
      fix j a
      assume "(j, a) \<in> set (busy (pool_workers s'))"
      with Take(4) busy_take_set [OF Take(1,2), of item]
      have "(j, a) = item \<or> (j, a) \<in> set (busy (pool_workers s))" by simp
      with Take(3) have "(j, a) \<in> set (work_queue s) \<or> (j, a) \<in> set (busy (pool_workers s))"
        by auto
      with items_okD [OF io, of j a] Take(4)
      show "j < length (futures s') \<and> a = args ! j" by simp
    qed
    moreover from po Take busy_take [OF Take(1,2), of item] have "pending_ok s'"
      by (simp add: pending_ok_def)
    ultimately show ?thesis by (simp add: pool_inv_def)
  next
    case (Finish k a)
    from Finish(1,2) have mem: "(k, a) \<in> set (busy (pool_workers s))"
      by (rule busy_member)
    with items_okD [OF io, of k a] have k: "k < length (futures s)" and a: "a = args ! k"
      by simp_all
    from mem have "k \<in># mset (map fst (busy (pool_workers s)))"
      by force
    with po have "k \<in> set (pending (futures s))"
      by (metis pending_ok_def set_mset_mset union_iff)
    then have none: "futures s ! k = None"
      by (simp add: pending_member)
    from co Finish(3) k have "caller_ok task args s'"
      by (auto simp: caller_ok_def nth_list_update split: pool_pc.splits)
    moreover from fo Finish(3) k a have "futures_ok task args s'"
      by (auto simp: futures_ok_def nth_list_update)
    moreover have "items_ok args s'"
    proof (rule items_okI)
      fix j b
      assume "(j, b) \<in> set (work_queue s')"
      with Finish(3) have "(j, b) \<in> set (work_queue s)" by simp
      with items_okD [OF io, of j b] Finish(3)
      show "j < length (futures s') \<and> b = args ! j" by simp
    next
      fix j b
      assume "(j, b) \<in> set (busy (pool_workers s'))"
      with Finish(3) busy_finish_set [OF Finish(1,2)]
      have "(j, b) \<in> set (busy (pool_workers s))" by auto
      with items_okD [OF io, of j b] Finish(3)
      show "j < length (futures s') \<and> b = args ! j" by simp
    qed
    moreover have "pending_ok s'"
    proof -
      define A where "A = mset (map fst (work_queue s))"
      define B where "B = mset (map fst (busy (pool_workers s)))"
      define B' where "B' = mset (map fst (busy ((pool_workers s)[w := None])))"
      define Q where "Q = mset (pending (futures s))"
      define Q' where "Q' = mset (pending ((futures s)[k := Some (task a)]))"
      from busy_finish [OF Finish(1,2)] have "add_mset k B' = B"
        unfolding B_def B'_def by (metis fst_conv image_mset_add_mset mset_map)
      moreover from po have "A + B = Q"
        by (simp add: pending_ok_def A_def B_def Q_def)
      moreover from pending_done [OF k none, of "task a"] have "add_mset k Q' = Q"
        by (simp add: Q_def Q'_def)
      ultimately have "add_mset k (A + B') = add_mset k Q'"
        by (metis union_mset_add_mset_right)
      then have "A + B' = Q'" by simp
      with Finish(3) show ?thesis
        by (simp add: pending_ok_def A_def B'_def Q'_def)
    qed
    moreover from mw Finish(3) have "0 < mw \<and> length (pool_workers s') = nat mw"
      by simp
    ultimately show ?thesis by (simp add: pool_inv_def)
  qed
qed

lemma busy_replicate [simp]: "busy (replicate n None) = []"
  by (induction n) simp_all

lemma pool_inv_init: "pool_init mw = Inr s \<Longrightarrow> pool_inv task args mw s"
  by (auto simp: pool_init_def pool_inv_def caller_ok_def futures_ok_def items_ok_def
      pending_ok_def pending_def split: if_splits)

text \<open>
  Termination and absence of deadlock of the pool. While a future is unfinished its call
  is queued or running, so some pool thread can move.
\<close>

lemma pool_remaining_caller:
  assumes inv: "pool_inv task args mw s" and st: "caller_step args s = Some s'"
  shows "pool_remaining args s' < pool_remaining args s"
  using st
proof (cases rule: caller_cases)
  case (Submit k)
  then have "length args - k = Suc (length args - Suc k)" by simp
  then have "3 * (length args - k) = 3 * (length args - Suc k) + 3" by simp
  with Submit show ?thesis by (simp add: pool_remaining_def)
next
  case (Submitted k)
  with inv show ?thesis
    by (auto simp: pool_remaining_def pool_inv_def caller_ok_def)
next
  case (Collect k r)
  then show ?thesis by (auto simp: pool_remaining_def)
next
  case (Collected k)
  then show ?thesis by (simp add: pool_remaining_def)
next
  case Shut
  then show ?thesis by (simp add: pool_remaining_def)
qed

lemma pool_remaining_worker:
  assumes st: "pool_worker_step task w s = Some s'"
  shows "pool_remaining args s' < pool_remaining args s"
  using st
proof (cases rule: pool_worker_cases)
  case (Take item queue)
  with busy_take_length [OF Take(1,2), of item] show ?thesis
    by (simp add: pool_remaining_def)
next
  case (Finish k a)
  with busy_finish_length [OF Finish(1,2)] show ?thesis
    by (simp add: pool_remaining_def)
qed

lemma pool_remaining_step:
  assumes "pool_inv task args mw s" and "pool_step task args x s = Some s'"
  shows "pool_remaining args s' < pool_remaining args s"
  using assms(2,1)
  by (cases rule: pool_step_cases) (auto intro: pool_remaining_caller pool_remaining_worker)

lemma worker_enabled:
  assumes "work_queue s \<noteq> [] \<or> busy (pool_workers s) \<noteq> []" and "0 < length (pool_workers s)"
  shows "\<exists>w s'. pool_worker_step task w s = Some s'"
proof (cases "busy (pool_workers s) = []")
  case False
  from busy_ex [OF this] obtain w k a
    where "w < length (pool_workers s)" "pool_workers s ! w = Some (k, a)" by force
  then have "\<exists>s'. pool_worker_step task w s = Some s'"
    by (simp add: pool_worker_step_def)
  then show ?thesis by blast
next
  case True
  with assms(1) obtain item queue where q: "work_queue s = item # queue"
    by (cases "work_queue s") auto
  from True have "list_all (\<lambda>w. w = None) (pool_workers s)"
    by (simp add: busy_Nil_iff)
  with assms(2) have "pool_workers s ! 0 = None"
    by (simp add: list_all_length)
  with q assms(2) have "\<exists>s'. pool_worker_step task 0 s = Some s'"
    by (simp add: pool_worker_step_def)
  then show ?thesis by blast
qed

lemma pool_progress:
  assumes inv: "pool_inv task args mw s" and ne: "caller s \<noteq> Exited"
  shows "\<exists>x s'. pool_step task args x s = Some s'"
proof -
  from inv have co: "caller_ok task args s" and po: "pending_ok s"
    and mw: "0 < length (pool_workers s)"
    by (auto simp: pool_inv_def)
  have by_caller: ?thesis if "\<exists>s'. caller_step args s = Some s'"
  proof -
    from that have "\<exists>s'. pool_step task args Caller s = Some s'" by simp
    then show ?thesis by blast
  qed
  have by_worker: ?thesis if "work_queue s \<noteq> [] \<or> busy (pool_workers s) \<noteq> []"
  proof -
    from worker_enabled [OF that mw, of task] obtain w s'
      where "pool_step task args (Pool_worker w) s = Some s'" by auto
    then show ?thesis by blast
  qed
  show ?thesis
  proof (cases "caller s")
    case (Submitting k)
    then show ?thesis by (intro by_caller) (simp add: caller_step_def)
  next
    case (Collecting k)
    show ?thesis
    proof (cases "k < length (futures s) \<and> futures s ! k = None")
      case False
      with Collecting show ?thesis
        by (intro by_caller) (auto simp: caller_step_def)
    next
      case True
      then have "k \<in># mset (pending (futures s))"
        by (simp add: pending_member)
      with po have "k \<in># mset (map fst (work_queue s)) + mset (map fst (busy (pool_workers s)))"
        by (simp add: pending_ok_def)
      then have "work_queue s \<noteq> [] \<or> busy (pool_workers s) \<noteq> []"
        by auto
      then show ?thesis by (rule by_worker)
    qed
  next
    case Shutdown
    with co have len: "length (futures s) = length args"
      and all: "\<forall>j < length args. futures s ! j \<noteq> None"
      by (simp_all add: caller_ok_def)
    then have "pending (futures s) = []"
      by (simp add: pending_def filter_empty_conv)
    with po have "work_queue s = []" "busy (pool_workers s) = []"
      by (simp_all add: pending_ok_def)
    with Shutdown show ?thesis
      by (intro by_caller) (simp add: caller_step_def busy_Nil_iff)
  next
    case Exited
    with ne show ?thesis by simp
  qed
qed

lemma pool_run_None [simp]: "pool_run task args sched None = None"
  by (induction sched) auto

lemma pool_run_append:
  "pool_run task args (xs @ ys) r = pool_run task args ys (pool_run task args xs r)"
  by (induction xs arbitrary: r) auto

lemma pool_run_inv:
  "pool_inv task args mw s \<Longrightarrow> pool_run task args sched (Some s) = Some s' \<Longrightarrow>
     pool_inv task args mw s' \<and> length sched + pool_remaining args s' \<le> pool_remaining args s"
proof (induction sched arbitrary: s)
  case Nil
  then show ?case by simp
next
  case (Cons x sched)
  from Cons.prems(2) obtain s1
    where s1: "pool_step task args x s = Some s1" "pool_run task args sched (Some s1) = Some s'"
    by (cases "pool_step task args x s") auto
  from Cons.prems(1) s1(1) have inv1: "pool_inv task args mw s1"
    by (cases rule: pool_step_cases [OF s1(1)]) (auto intro: pool_inv_caller pool_inv_worker)
  from Cons.IH [OF inv1 s1(2)] pool_remaining_step [OF Cons.prems(1) s1(1)] show ?case
    by simp
qed

lemma pool_completes:
  "pool_inv task args mw s \<Longrightarrow>
     \<exists>sched s'. pool_run task args sched (Some s) = Some s' \<and> caller s' = Exited"
proof (induction "pool_remaining args s" arbitrary: s rule: less_induct)
  case less
  show ?case
  proof (cases "caller s = Exited")
    case True
    then have "pool_run task args [] (Some s) = Some s \<and> caller s = Exited" by simp
    then show ?thesis by blast
  next
    case False
    from pool_progress [OF less.prems False] obtain x s1
      where st: "pool_step task args x s = Some s1" by blast
    from less.prems st have inv1: "pool_inv task args mw s1"
      by (cases rule: pool_step_cases [OF st]) (auto intro: pool_inv_caller pool_inv_worker)
    from less.hyps [OF pool_remaining_step [OF less.prems st] inv1]
    obtain sched s' where "pool_run task args sched (Some s1) = Some s'" "caller s' = Exited"
      by blast
    with st have "pool_run task args (x # sched) (Some s) = Some s' \<and> caller s' = Exited"
      by simp
    then show ?thesis by blast
  qed
qed

lemma pool_results_prefix:
  assumes "pool_inv task args mw s"
  shows "results s = take (length (results s)) (map task args)"
  using assms
  by (cases "caller s") (auto simp: pool_inv_def caller_ok_def take_map)

lemma pool_results_final:
  assumes "pool_inv task args mw s" and "caller s = Exited"
  shows "results s = map task args"
  using assms by (simp add: pool_inv_def caller_ok_def)

lemma pool_remaining_init:
  "pool_init mw = Inr s \<Longrightarrow> pool_remaining args s = 4 * length args + 4"
  by (auto simp: pool_init_def pool_remaining_def split: if_splits)

lemma reversed_completion_run:
  "run_concurrent square [1, 2, 3] 3 reversed_completion = Some (Inr [1, 4, 9])"
  by (simp add: run_concurrent_def pool_init_def reversed_completion_def caller_step_def
      pool_worker_step_def square_def eval_nat_numeral)

text \<open>
  A complete execution returns the mapped list, and every execution can be completed.
\<close>

lemma run_concurrent_sound:
  fixes task :: "'a \<Rightarrow> 'b"
  assumes "1 \<le> worker_count"
    and "run_concurrent task args worker_count sched = Some r"
  shows "r = Inr (map task args)"
proof -
  from assms(1) obtain s0 :: "('a, 'b) pool_state" where s0: "pool_init worker_count = Inr s0"
    by (simp add: pool_init_def)
  with assms(2) obtain s where s: "pool_run task args sched (Some s0) = Some s"
    "caller s = Exited" "r = Inr (results s)"
    by (auto simp: run_concurrent_def split: option.splits if_splits)
  from pool_run_inv [OF pool_inv_init [OF s0] s(1)] have "pool_inv task args worker_count s"
    by simp
  from pool_results_final [OF this s(2)] s(3) show ?thesis by simp
qed

lemma run_concurrent_extends:
  assumes "pool_init worker_count = Inr s0"
    and "pool_run task args sched (Some s0) = Some s"
  shows "\<exists>rest. run_concurrent task args worker_count (sched @ rest) = Some (Inr (map task args))"
proof -
  from pool_run_inv [OF pool_inv_init [OF assms(1)] assms(2)]
  have inv: "pool_inv task args worker_count s" by simp
  from pool_completes [OF inv] obtain rest s'
    where rest: "pool_run task args rest (Some s) = Some s'" "caller s' = Exited" by blast
  from pool_run_inv [OF inv rest(1)] have "pool_inv task args worker_count s'" by simp
  from pool_results_final [OF this rest(2)] have "results s' = map task args" .
  with assms rest have "run_concurrent task args worker_count (sched @ rest) = Some (Inr (map task args))"
    by (simp add: run_concurrent_def pool_run_append)
  then show ?thesis by blast
qed

text \<open>
  C1: for every function \<open>task\<close>, argument list \<open>args\<close> and pool of at least one thread,
  the sequential loop returns \<open>task\<close> of every argument, in the order of the arguments,
  and so does the pool under every schedule: whatever the order in which the calls
  finish, the results are collected in the order of submission. Some execution of the
  pool finishes, every execution has at most \<open>4 * length args + 4\<close> steps, every execution
  can be continued to a finished one, and the results collected at any moment are a
  prefix of the sequential ones. For \<open>square\<close> and \<open>[1, 2, 3]\<close> both give \<open>[1, 4, 9]\<close>.
\<close>

theorem run_concurrent_equals_run_sequential:
  "(1 \<le> worker_count \<longrightarrow>
      run_sequential task args = map task args \<and>
      length (run_sequential task args) = length args \<and>
      (\<forall>i < length args. run_sequential task args ! i = task (args ! i)) \<and>
      (\<exists>sched. run_concurrent task args worker_count sched = Some (Inr (run_sequential task args))) \<and>
      (\<forall>sched r. run_concurrent task args worker_count sched = Some r \<longrightarrow>
         r = Inr (run_sequential task args)) \<and>
      (\<forall>sched s0 s. pool_init worker_count = Inr s0 \<and> pool_run task args sched (Some s0) = Some s \<longrightarrow>
         results s = take (length (results s)) (run_sequential task args) \<and>
         length sched \<le> 4 * length args + 4 \<and>
         (\<exists>rest. run_concurrent task args worker_count (sched @ rest) =
            Some (Inr (run_sequential task args))))) \<and>
   run_sequential square [1, 2, 3] = [1, 4, 9] \<and>
   (\<forall>sched r. run_concurrent square [1, 2, 3] 3 sched = Some r \<longrightarrow> r = Inr [1, 4, 9])"
  for task :: "'a \<Rightarrow> 'b"
proof (intro conjI impI allI)
  show "run_sequential square [1, 2, 3] = [1, 4, 9]"
    by (simp add: run_sequential_map square_def)
next
  fix sched r
  assume "run_concurrent square [1, 2, 3] 3 sched = Some r"
  from run_concurrent_sound [OF _ this] show "r = Inr [1, 4, 9]"
    by (simp add: square_def)
next
  assume wc: "1 \<le> worker_count"
  show "run_sequential task args = map task args"
    by (rule run_sequential_map)
  show "length (run_sequential task args) = length args"
    by (simp add: run_sequential_map)
  from wc obtain s0 :: "('a, 'b) pool_state" where s0: "pool_init worker_count = Inr s0"
    by (simp add: pool_init_def)
  have "pool_run task args [] (Some s0) = Some s0" by simp
  from run_concurrent_extends [OF s0 this]
  show "\<exists>sched. run_concurrent task args worker_count sched = Some (Inr (run_sequential task args))"
    by (simp add: run_sequential_map)
next
  fix i
  assume "i < length args"
  then show "run_sequential task args ! i = task (args ! i)"
    by (simp add: run_sequential_map)
next
  fix sched r
  assume "1 \<le> worker_count" and "run_concurrent task args worker_count sched = Some r"
  then show "r = Inr (run_sequential task args)"
    by (simp add: run_sequential_map run_concurrent_sound)
next
  fix sched and s0 s :: "('a, 'b) pool_state"
  assume h: "pool_init worker_count = Inr s0 \<and> pool_run task args sched (Some s0) = Some s"
  then have s0: "pool_init worker_count = Inr s0"
    and r: "pool_run task args sched (Some s0) = Some s" by simp_all
  from pool_run_inv [OF pool_inv_init [OF s0] r]
  have inv: "pool_inv task args worker_count s"
    and len: "length sched + pool_remaining args s \<le> pool_remaining args s0" by simp_all
  from pool_results_prefix [OF inv]
  show "results s = take (length (results s)) (run_sequential task args)"
    by (simp add: run_sequential_map)
  from len pool_remaining_init [OF s0, of args] show "length sched \<le> 4 * length args + 4"
    by simp
  from run_concurrent_extends [OF s0 r]
  show "\<exists>rest. run_concurrent task args worker_count (sched @ rest) =
      Some (Inr (run_sequential task args))"
    by (simp add: run_sequential_map)
qed

lemma pool_start_init: "pool_init 3 = Inr pool_start"
  by (simp add: pool_init_def pool_start_def eval_nat_numeral)

lemma one_collected_run:
  "pool_run square [1, 2, 3] [Caller, Caller, Caller, Caller, Pool_worker 0, Pool_worker 0, Caller]
     (Some pool_start) = Some one_collected"
  by (simp add: pool_start_def one_collected_def caller_step_def pool_worker_step_def square_def
      eval_nat_numeral)

text \<open>
  Three threads, the calls finishing in reverse order: the results are still
  \<open>[1, 4, 9]\<close>.
\<close>

theorem run_concurrent_equals_run_sequential_witness:
  "(1::int) \<le> 3 \<and>
   run_sequential square [1, 2, 3] = [1, 4, 9] \<and>
   run_concurrent square [1, 2, 3] 3 reversed_completion = Some (Inr [1, 4, 9]) \<and>
   run_sequential square [1, 2, 3] ! 2 = square 3 \<and>
   length (run_sequential square [1, 2, 3]) = 3 \<and>
   pool_init 3 = Inr pool_start \<and>
   pool_run square [1, 2, 3] [Caller, Caller, Caller, Caller, Pool_worker 0, Pool_worker 0, Caller]
     (Some pool_start) = Some one_collected \<and>
   results one_collected = take 1 (run_sequential square [1, 2, 3]) \<and>
   length [Caller, Caller, Caller, Caller, Pool_worker 0, Pool_worker 0, Caller] \<le> 16"
proof -
  have wc: "(1::int) \<le> 3" by simp
  from run_concurrent_equals_run_sequential [of 3 square "[1, 2, 3]"] wc
  have seq: "run_sequential square [1, 2, 3] = map square [1, 2, 3]"
    and len: "length (run_sequential square [1, 2, 3]) = length [1::int, 2, 3]"
    and idx: "\<forall>i < length [1::int, 2, 3]. run_sequential square [1, 2, 3] ! i = square ([1, 2, 3] ! i)"
    and snd: "\<forall>sched r. run_concurrent square [1, 2, 3] 3 sched = Some r \<longrightarrow>
        r = Inr (run_sequential square [1, 2, 3])"
    and part: "\<forall>sched s0 s. pool_init 3 = Inr s0 \<and>
        pool_run square [1, 2, 3] sched (Some s0) = Some s \<longrightarrow>
        results s = take (length (results s)) (run_sequential square [1, 2, 3]) \<and>
        length sched \<le> 4 * length [1::int, 2, 3] + 4"
    by blast+
  from snd reversed_completion_run
  have "Inr [1, 4, 9] = (Inr (run_sequential square [1, 2, 3]) :: py_error + int list)"
    by blast
  moreover from idx have "run_sequential square [1, 2, 3] ! 2 = square ([1, 2, 3] ! 2)"
    by simp
  moreover from part pool_start_init one_collected_run
  have "results one_collected =
      take (length (results one_collected)) (run_sequential square [1, 2, 3]) \<and>
    length [Caller, Caller, Caller, Caller, Pool_worker 0, Pool_worker 0, Caller] \<le>
      4 * length [1::int, 2, 3] + 4"
    by blast
  moreover have "length (results one_collected) = 1"
    by (simp add: one_collected_def)
  ultimately show ?thesis
    using reversed_completion_run len pool_start_init one_collected_run by simp
qed

end
